theory Spec2Isabelle
  imports Main "HOL-Library.Word" "HOL-Library.AList" "HOL-Library.Multiset"
begin

section \<open>Data model of the capture worker\<close>

text \<open>
  Go's \<open>uint\<close> is 64 bits wide here: the constant \<open>LARGE_FLOW_SIZE\<close> (2 to the 34) is
  compared with a \<open>uint\<close>, which only compiles where \<open>uint\<close> has 64 bits. Arithmetic on
  the counters wraps around, as \<open>64 word\<close> does. Points in time and durations are
  integers (nanoseconds); every reading of the clock is an input of the model, and the
  difference of two readings is exact (Go's \<open>Sub\<close> saturates beyond 292 years). The
  channel to the writer is the list of the frames sent on it; that a send waits while the
  channel is full is not modelled.
\<close>

type_synonym uint = "64 word"
type_synonym byte = "8 word"

definition MAX_ETHERNET_MTU :: nat where
  "MAX_ETHERNET_MTU = 9216"

definition MINIMUM_IP_PACKET_SIZE :: uint where
  "MINIMUM_IP_PACKET_SIZE = 58"

definition LARGE_FLOW_SIZE :: uint where
  "LARGE_FLOW_SIZE = 1024 * 1024 * 1024 * 16"

text \<open>
  \<open>gopacket.Flow\<close>: an endpoint type and the two endpoints' bytes. Its zero value is what
  a Go variable of that type holds before any assignment.
\<close>

record Flow =
  endpointType :: nat
  src :: "byte list"
  dst :: "byte list"

definition zero_Flow :: Flow where
  "zero_Flow = \<lparr>endpointType = 0, src = [], dst = []\<rparr>"

record FiveTuple =
  proto :: byte
  networkFlow :: Flow
  transportFlow :: Flow

definition zero_FiveTuple :: FiveTuple where
  "zero_FiveTuple = \<lparr>proto = 0, networkFlow = zero_Flow, transportFlow = zero_Flow\<rparr>"

record trackedFlow =
  packets :: uint
  bytecount :: uint
  last_time :: int
  logged :: bool

definition zero_trackedFlow :: trackedFlow where
  "zero_trackedFlow = \<lparr>packets = 0, bytecount = 0, last_time = 0, logged = False\<rparr>"

record CaptureInfo =
  Timestamp :: int
  CaptureLength :: nat
  Length :: nat

record PcapFrame =
  ci :: CaptureInfo
  data :: "byte list"

text \<open>
  The layers the parser of \<open>doSniff\<close> is built with. A decoded IPv4, IPv6, TCP or UDP
  layer carries the fields that the loop reads from the decoder's layer variables right
  after decoding: the protocol (or next header) and the network flow, or the transport
  flow.
\<close>

datatype layer =
    LayerTypeEthernet
  | LayerTypeDot1Q
  | LayerTypeIPv4 byte Flow
  | LayerTypeIPv6 byte Flow
  | LayerTypeTCP Flow
  | LayerTypeUDP Flow

text \<open>The body of the \<open>switch\<close> over one decoded layer (lines 244 to 256).\<close>

fun set_layer :: "FiveTuple \<Rightarrow> layer \<Rightarrow> FiveTuple" where
  "set_layer flow (LayerTypeIPv6 nh nf) = flow\<lparr>proto := nh, networkFlow := nf\<rparr>"
| "set_layer flow (LayerTypeIPv4 p nf) = flow\<lparr>proto := p, networkFlow := nf\<rparr>"
| "set_layer flow (LayerTypeUDP tf) = flow\<lparr>transportFlow := tf\<rparr>"
| "set_layer flow (LayerTypeTCP tf) = flow\<lparr>transportFlow := tf\<rparr>"
| "set_layer flow LayerTypeEthernet = flow"
| "set_layer flow LayerTypeDot1Q = flow"

text \<open>\<open>var flow FiveTuple\<close> followed by the loop over the decoded layers.\<close>

definition five_tuple :: "layer list \<Rightarrow> FiveTuple" where
  "five_tuple decoded = foldl set_layer zero_FiveTuple decoded"

text \<open>
  The package-level variables set from the command line, and the layer parser:
  \<open>DecodeLayers\<close> is a function of the packet's bytes (its error is ignored by the
  loop), and it belongs to the packet library, so it is a parameter here.
\<close>

record globals =
  packetTimeInterval :: int
  flowTimeout :: int
  flowByteCutoff :: uint
  flowPacketCutoff :: uint
  writeOutputPath :: string
  writeCompressed :: bool
  DecodeLayers :: "byte list \<Rightarrow> layer list"

record Stats =
  PacketsReceived :: nat
  PacketsDropped :: nat
  PacketsIfDropped :: nat

datatype failure = Panic | Fatal

text \<open>
  One iteration's inputs: the packet read from the handle, and what the environment
  answers during the iteration: the clock at line 266, and in the housekeeping the
  handle's statistics (or their failure) and the clock at lines 293 and 294.
\<close>

record frame_in =
  packetData :: "byte list"
  capinfo :: CaptureInfo
  now_last :: int
  handle_Stats :: "failure + Stats"
  now_since :: int
  now_cleanup :: int

datatype log_line =
    LargeFlow FiveTuple
  | CleanupLine nat nat uint uint uint nat nat nat

text \<open>
  The metrics of one worker. Counters and gauges hold the numbers handed to them (the
  conversion to \<open>float64\<close> is left out); the histogram is the multiset of the values
  observed. The counter of sweep durations, a difference of two clock readings in
  seconds, is left out.
\<close>

record metrics =
  mActiveFlows :: nat
  mExpired :: nat
  mBytes :: nat
  mBytesOutput :: nat
  mPackets :: nat
  mOutput :: nat
  mFlows :: nat
  mFlowSize :: "uint multiset"
  mReceived :: nat
  mDropped :: nat
  mIfDropped :: nat

definition zero_metrics :: metrics where
  "zero_metrics = \<lparr>mActiveFlows = 0, mExpired = 0, mBytes = 0, mBytesOutput = 0,
     mPackets = 0, mOutput = 0, mFlows = 0, mFlowSize = {#}, mReceived = 0, mDropped = 0,
     mIfDropped = 0\<rparr>"

text \<open>
  The local variables of \<open>doSniff\<close> that live across iterations, the frames sent on
  \<open>writerchan\<close> so far (oldest first), the log and the metrics. The table \<open>seen\<close> is an
  association list with one pair per key; \<open>range seen\<close> visits it in list order, one of
  the orders a Go map may be visited in.
\<close>

record worker =
  seen :: "(FiveTuple \<times> trackedFlow) list"
  totalFlows :: uint
  removedFlows :: uint
  totalBytes :: uint
  outputBytes :: uint
  totalPackets :: uint
  outputPackets :: uint
  pcapStats :: "Stats option"
  lastcleanup :: int
  speedup :: nat
  writerchan :: "PcapFrame list"
  logs :: "log_line list"
  registry :: metrics

definition init_worker :: "int \<Rightarrow> worker" where
  "init_worker now = \<lparr>seen = [], totalFlows = 0, removedFlows = 0, totalBytes = 0,
     outputBytes = 0, totalPackets = 0, outputPackets = 0, pcapStats = None,
     lastcleanup = now, speedup = 0, writerchan = [], logs = [],
     registry = zero_metrics\<rparr>"

section \<open>The sampler\<close>

text \<open>Lines 266 to 271: the update of the flow's state by one packet of \<open>n\<close> bytes.\<close>

definition bump :: "int \<Rightarrow> nat \<Rightarrow> trackedFlow \<Rightarrow> trackedFlow" where
  "bump now n flw =
     (let flw1 = flw\<lparr>last_time := now, packets := packets flw + 1\<rparr>;
          pl = (of_nat n :: uint)
      in if pl > MINIMUM_IP_PACKET_SIZE
         then flw1\<lparr>bytecount := bytecount flw1 + (pl - MINIMUM_IP_PACKET_SIZE)\<rparr>
         else flw1)"

text \<open>Line 272: the test on the updated counters.\<close>

definition continues :: "globals \<Rightarrow> trackedFlow \<Rightarrow> bool" where
  "continues g flw \<longleftrightarrow> bytecount flw < flowByteCutoff g \<and> packets flw < flowPacketCutoff g"

text \<open>Line 281: the test of the \<open>else if\<close>.\<close>

definition large_unlogged :: "trackedFlow \<Rightarrow> bool" where
  "large_unlogged flw \<longleftrightarrow> logged flw = False \<and> bytecount flw > LARGE_FLOW_SIZE"

text \<open>
  The state of a flow after one of its packets (lines 266 to 284): updated, and flagged
  when the packet is not forwarded and the flow is large and not yet reported.
\<close>

definition after_packet :: "globals \<Rightarrow> int \<Rightarrow> nat \<Rightarrow> trackedFlow \<Rightarrow> trackedFlow" where
  "after_packet g now n flw =
     (let flw' = bump now n flw
      in if continues g flw' then flw'
         else if large_unlogged flw' then flw'\<lparr>logged := True\<rparr>
         else flw')"

text \<open>
  Lines 238 to 284: count the packet, find its five-tuple, look the flow up or create it,
  update it, and forward the packet or drop it.
\<close>

definition track :: "globals \<Rightarrow> frame_in \<Rightarrow> worker \<Rightarrow> worker" where
  "track g fr w =
     (let w1 = w\<lparr>totalPackets := totalPackets w + 1,
                  totalBytes := totalBytes w + of_nat (length (packetData fr))\<rparr>;
          flow = five_tuple (DecodeLayers g (packetData fr));
          (flw0, w2) = (case map_of (seen w1) flow of
                          None \<Rightarrow> (zero_trackedFlow, w1\<lparr>totalFlows := totalFlows w1 + 1\<rparr>)
                        | Some flw \<Rightarrow> (flw, w1));
          flw' = bump (now_last fr) (length (packetData fr)) flw0
      in if continues g flw' then
           w2\<lparr>seen := AList.update flow flw' (seen w2),
              outputPackets := outputPackets w2 + 1,
              outputBytes := outputBytes w2 + of_nat (length (packetData fr)),
              writerchan := writerchan w2 @ [\<lparr>ci = capinfo fr, data = packetData fr\<rparr>]\<rparr>
         else if large_unlogged flw' then
           w2\<lparr>seen := AList.update flow (flw'\<lparr>logged := True\<rparr>) (seen w2),
              logs := logs w2 @ [LargeFlow flow]\<rparr>
         else w2\<lparr>seen := AList.update flow flw' (seen w2)\<rparr>)"

section \<open>Housekeeping\<close>

text \<open>Line 298: the test of the sweep on one entry.\<close>

definition expired :: "globals \<Rightarrow> int \<Rightarrow> trackedFlow \<Rightarrow> bool" where
  "expired g now flw \<longleftrightarrow> now - last_time flw > flowTimeout g"

text \<open>
  Lines 294 to 313: the sweep. The first loop collects the keys to remove, counts them
  and observes their byte counts; the second loop deletes them.
\<close>

definition sweep :: "globals \<Rightarrow> int \<Rightarrow> worker \<Rightarrow> worker" where
  "sweep g now w =
     (let old = filter (\<lambda>(flow, flw). expired g now flw) (seen w);
          remove = map fst old;
          seen' = foldl (\<lambda>s rem. AList.delete rem s) (seen w) remove
      in w\<lparr>lastcleanup := now,
            removedFlows := removedFlows w + of_nat (length remove),
            seen := seen',
            logs := logs w @ [CleanupLine (length seen') (length remove) (totalBytes w)
                     (totalPackets w) (outputPackets w)
                     (case pcapStats w of None \<Rightarrow> 0 | Some st \<Rightarrow> PacketsReceived st)
                     (case pcapStats w of None \<Rightarrow> 0 | Some st \<Rightarrow> PacketsDropped st)
                     (case pcapStats w of None \<Rightarrow> 0 | Some st \<Rightarrow> PacketsIfDropped st)],
            registry := (registry w)\<lparr>
               mFlowSize := mFlowSize (registry w) + mset (map (\<lambda>(flow, flw). bytecount flw) old),
               mExpired := length remove\<rparr>\<rparr>)"

text \<open>Lines 316 to 335: hand the local counters to the metrics and reset them.\<close>

definition flush :: "Stats \<Rightarrow> worker \<Rightarrow> worker" where
  "flush st w =
     w\<lparr>registry := (registry w)\<lparr>
          mActiveFlows := length (seen w),
          mFlows := mFlows (registry w) + unat (totalFlows w),
          mPackets := mPackets (registry w) + unat (totalPackets w),
          mBytes := mBytes (registry w) + unat (totalBytes w),
          mBytesOutput := mBytesOutput (registry w) + unat (outputBytes w),
          mOutput := mOutput (registry w) + unat (outputPackets w),
          mReceived := PacketsReceived st,
          mDropped := PacketsDropped st,
          mIfDropped := PacketsIfDropped st\<rparr>,
       totalFlows := 0, totalPackets := 0, totalBytes := 0, outputBytes := 0,
       outputPackets := 0\<rparr>"

text \<open>
  Lines 286 to 336: every 5000th packet read the statistics (a failure is fatal), sweep
  when the last sweep is older than the interval, and flush the counters.
\<close>

definition housekeeping :: "globals \<Rightarrow> frame_in \<Rightarrow> worker \<Rightarrow> failure + worker" where
  "housekeeping g fr w =
     (if speedup w + 1 = 5000 then
        (case handle_Stats fr of
           Inl e \<Rightarrow> Inl Fatal
         | Inr st \<Rightarrow>
             let w1 = w\<lparr>speedup := 0, pcapStats := Some st\<rparr>;
                 w2 = (if now_since fr - lastcleanup w1 > packetTimeInterval g
                       then sweep g (now_cleanup fr) w1 else w1)
             in Inr (flush st w2))
      else Inr (w\<lparr>speedup := speedup w + 1\<rparr>))"

text \<open>One iteration of the loop, after a packet was read.\<close>

definition process :: "globals \<Rightarrow> frame_in \<Rightarrow> worker \<Rightarrow> failure + worker" where
  "process g fr w = housekeeping g fr (track g fr w)"

text \<open>The iterations over the packets the handle delivers, in order.\<close>

fun run :: "globals \<Rightarrow> frame_in list \<Rightarrow> worker \<Rightarrow> failure + worker" where
  "run g [] w = Inr w"
| "run g (fr # frs) w =
     (case process g fr w of Inl e \<Rightarrow> Inl e | Inr w' \<Rightarrow> run g frs w')"

text \<open>
  \<open>doSniff\<close>: opening the handle or setting the filter may fail (a panic); then the loop
  runs over the packets read until the handle reports the end of the capture
  (\<open>read_error = False\<close>, the worker returns) or another error (fatal).
\<close>

definition doSniff ::
  "globals \<Rightarrow> bool \<Rightarrow> bool \<Rightarrow> int \<Rightarrow> frame_in list \<Rightarrow> bool \<Rightarrow> failure + worker" where
  "doSniff g open_fails filter_fails start frs read_error =
     (if open_fails then Inl Panic
      else if filter_fails then Inl Panic
      else (case run g frs (init_worker start) of
              Inl e \<Rightarrow> Inl e
            | Inr w \<Rightarrow> if read_error then Inl Fatal else Inr w))"

section \<open>Views of the worker used in the statements\<close>

text \<open>The five-tuple that line 242 to 257 compute for a packet read from the handle.\<close>

definition flow_of :: "globals \<Rightarrow> frame_in \<Rightarrow> FiveTuple" where
  "flow_of g fr = five_tuple (DecodeLayers g (packetData fr))"

text \<open>The five-tuple of a frame that was sent to the writer: decoded from its bytes.\<close>

definition pkey :: "globals \<Rightarrow> PcapFrame \<Rightarrow> FiveTuple" where
  "pkey g p = five_tuple (DecodeLayers g (data p))"

text \<open>
  The state of a flow in the table, read as line 259 to 262 read it: the entry, or a
  fresh zero value when the key is absent.
\<close>

definition entry :: "worker \<Rightarrow> FiveTuple \<Rightarrow> trackedFlow" where
  "entry w k = (case map_of (seen w) k of None \<Rightarrow> zero_trackedFlow | Some flw \<Rightarrow> flw)"

text \<open>Whether \<open>track\<close> sends the packet to the writer, and the frame it sends.\<close>

definition forwarded :: "globals \<Rightarrow> frame_in \<Rightarrow> worker \<Rightarrow> bool" where
  "forwarded g fr w \<longleftrightarrow>
     continues g (bump (now_last fr) (length (packetData fr)) (entry w (flow_of g fr)))"

definition frame_of :: "frame_in \<Rightarrow> PcapFrame" where
  "frame_of fr = \<lparr>ci = capinfo fr, data = packetData fr\<rparr>"

text \<open>The amount line 269 to 271 add to the byte counter for a packet.\<close>

definition payload :: "frame_in \<Rightarrow> nat" where
  "payload fr = length (packetData fr) - 58"

text \<open>
  \<open>kept k g frs w\<close>: the worker processes the packets \<open>frs\<close> from the state \<open>w\<close> without
  a fatal error, and no sweep on the way removes the entry of the key \<open>k\<close>.
\<close>

fun kept :: "FiveTuple \<Rightarrow> globals \<Rightarrow> frame_in list \<Rightarrow> worker \<Rightarrow> bool" where
  "kept k g [] w = True"
| "kept k g (fr # frs) w =
     (case process g fr w of
        Inl e \<Rightarrow> False
      | Inr w' \<Rightarrow> (map_of (seen (track g fr w)) k \<noteq> None \<longrightarrow> map_of (seen w') k \<noteq> None)
                 \<and> kept k g frs w')"

text \<open>
  What the packets of one flow do to its entry, to the writer's queue and to the number
  of large-flow diagnostics, packet after packet, while the entry stays in the table.
\<close>

fun flow_state :: "globals \<Rightarrow> trackedFlow \<Rightarrow> frame_in list \<Rightarrow> trackedFlow" where
  "flow_state g flw [] = flw"
| "flow_state g flw (fr # frs) =
     flow_state g (after_packet g (now_last fr) (length (packetData fr)) flw) frs"

fun flow_out :: "globals \<Rightarrow> trackedFlow \<Rightarrow> frame_in list \<Rightarrow> PcapFrame list" where
  "flow_out g flw [] = []"
| "flow_out g flw (fr # frs) =
     (if continues g (bump (now_last fr) (length (packetData fr)) flw) then [frame_of fr] else [])
     @ flow_out g (after_packet g (now_last fr) (length (packetData fr)) flw) frs"

fun flow_logs :: "globals \<Rightarrow> trackedFlow \<Rightarrow> frame_in list \<Rightarrow> nat" where
  "flow_logs g flw [] = 0"
| "flow_logs g flw (fr # frs) =
     (let flw' = bump (now_last fr) (length (packetData fr)) flw
      in if \<not> continues g flw' \<and> large_unlogged flw' then 1 else 0)
     + flow_logs g (after_packet g (now_last fr) (length (packetData fr)) flw) frs"

section \<open>Concrete captures\<close>

text \<open>One TCP flow over IPv4, as the parser reports its layers.\<close>

definition tcp_layers :: "layer list" where
  "tcp_layers = [LayerTypeEthernet,
     LayerTypeIPv4 6 \<lparr>endpointType = 2, src = [10, 0, 0, 1], dst = [10, 0, 0, 2]\<rparr>,
     LayerTypeTCP \<lparr>endpointType = 4, src = [192, 0], dst = [0, 80]\<rparr>]"

definition ok_stats :: "failure + Stats" where
  "ok_stats = Inr \<lparr>PacketsReceived = 0, PacketsDropped = 0, PacketsIfDropped = 0\<rparr>"

text \<open>The \<open>i\<close>-th packet of a capture, of \<open>n\<close> bytes, read at time \<open>i\<close>.\<close>

definition frame_at :: "nat \<Rightarrow> nat \<Rightarrow> frame_in" where
  "frame_at n i = \<lparr>packetData = replicate n 0,
     capinfo = \<lparr>Timestamp = int i, CaptureLength = n, Length = n\<rparr>,
     now_last = int i, handle_Stats = ok_stats, now_since = int i, now_cleanup = int i\<rparr>"

text \<open>Scenario S1: 200 packets of 100 bytes of one TCP flow, cutoffs 100 packets and 10000000 bytes.\<close>

definition S1_globals :: globals where
  "S1_globals = \<lparr>packetTimeInterval = 5000000000, flowTimeout = 5000000000,
     flowByteCutoff = 10000000, flowPacketCutoff = 100, writeOutputPath = ''out'',
     writeCompressed = False, DecodeLayers = (\<lambda>d. tcp_layers)\<rparr>"

definition S1_frames :: "frame_in list" where
  "S1_frames = map (frame_at 100) [0..<200]"

text \<open>The packets of the flow \<open>k\<close> in a capture, in order.\<close>

definition flow_frames :: "globals \<Rightarrow> FiveTuple \<Rightarrow> frame_in list \<Rightarrow> frame_in list" where
  "flow_frames g k frs = filter (\<lambda>fr. flow_of g fr = k) frs"

text \<open>Scenario S2: 10 packets of 2000 bytes of one flow, cutoffs 8192 bytes and 100 packets.\<close>

definition S2_globals :: globals where
  "S2_globals = \<lparr>packetTimeInterval = 5000000000, flowTimeout = 5000000000,
     flowByteCutoff = 8192, flowPacketCutoff = 100, writeOutputPath = ''out'',
     writeCompressed = False, DecodeLayers = (\<lambda>d. tcp_layers)\<rparr>"

definition S2_frames :: "frame_in list" where
  "S2_frames = map (frame_at 2000) [0, 1, 2, 3, 4, 5, 6, 7, 8, 9]"

text \<open>The byte counter of a flow, and the number of large-flow diagnostics logged for it.\<close>

definition flow_bytes :: "FiveTuple \<Rightarrow> worker \<Rightarrow> uint" where
  "flow_bytes k w = bytecount (entry w k)"

definition large_flow_lines :: "FiveTuple \<Rightarrow> worker \<Rightarrow> nat" where
  "large_flow_lines k w = length (filter (\<lambda>l. l = LargeFlow k) (logs w))"

text \<open>
  A capture for the large-flow diagnostic: cutoffs of 2 to the 35 bytes and 2 to the 32
  packets, and 1875942 packets of 9216 bytes of one flow (17179876836 payload bytes).
  And a worker whose table holds one flow just below 16 GiB.
\<close>

definition C6_globals :: globals where
  "C6_globals = \<lparr>packetTimeInterval = 5000000000, flowTimeout = 5000000000,
     flowByteCutoff = 34359738368, flowPacketCutoff = 4294967296, writeOutputPath = ''out'',
     writeCompressed = False, DecodeLayers = (\<lambda>d. tcp_layers)\<rparr>"

definition C6_frames :: "frame_in list" where
  "C6_frames = map (frame_at 9216) [0..<1875942]"

definition heavy_worker :: worker where
  "heavy_worker = (init_worker 0)\<lparr>seen := [(five_tuple tcp_layers,
      \<lparr>packets = 2000000, bytecount = 17179869000, last_time = 0, logged = False\<rparr>)]\<rparr>"

text \<open>
  A worker whose table holds two flows: one last seen at time 1000, one at time
  7000000000 (the key of the second is the zero five-tuple).
\<close>

definition idle_worker :: worker where
  "idle_worker = (init_worker 0)\<lparr>seen :=
     [(five_tuple tcp_layers, \<lparr>packets = 10, bytecount = 420, last_time = 1000, logged = False\<rparr>),
      (zero_FiveTuple, \<lparr>packets = 3, bytecount = 0, last_time = 7000000000, logged = False\<rparr>)]\<rparr>"

text \<open>
  The network and the transport layers, and the order in which the parser of \<open>doSniff\<close>
  reaches them: starting at Ethernet, it comes to TCP or UDP only through an IPv4 or
  IPv6 layer, so the first network or transport layer of a decoded packet is a network
  layer. This is a property of the packet library's decoders, stated here as a predicate
  on what \<open>DecodeLayers\<close> returns.
\<close>

fun is_ip :: "layer \<Rightarrow> bool" where
  "is_ip (LayerTypeIPv4 p nf) = True"
| "is_ip (LayerTypeIPv6 nh nf) = True"
| "is_ip l = False"

fun is_transport :: "layer \<Rightarrow> bool" where
  "is_transport (LayerTypeTCP tf) = True"
| "is_transport (LayerTypeUDP tf) = True"
| "is_transport l = False"

fun ip_before_transport :: "layer list \<Rightarrow> bool" where
  "ip_before_transport [] = True"
| "ip_before_transport (l # ls) =
     (if is_ip l then True else if is_transport l then False else ip_before_transport ls)"

text \<open>A parser that finds an Ethernet layer only, as for an ARP packet.\<close>

definition arp_globals :: globals where
  "arp_globals = S1_globals\<lparr>DecodeLayers := (\<lambda>d. [LayerTypeEthernet])\<rparr>"

section \<open>Renaming the capture file\<close>

text \<open>
  \<open>renamePcap\<close> talks to the operating system. The errors of its calls are values;
  \<open>os.IsNotExist\<close> holds for the error of a missing file.
\<close>

datatype os_error = ErrNotExist | ErrExist | ErrPermission | ErrOther nat

definition IsNotExist :: "os_error \<Rightarrow> bool" where
  "IsNotExist e \<longleftrightarrow> e = ErrNotExist"

text \<open>
  The local time read by \<open>time.Now()\<close>, and its formatting with the layout
  \<open>2006/01/02/2006-01-02T15-04-05.pcap\<close>: the year in four digits, the other fields in
  two, zero-padded (years below 10000).
\<close>

record clock_time =
  Year :: nat
  Month :: nat
  Day :: nat
  Hour :: nat
  Minute :: nat
  Second :: nat

definition digit :: "nat \<Rightarrow> char" where
  "digit n = ''0123456789'' ! (n mod 10)"

definition pad2 :: "nat \<Rightarrow> string" where
  "pad2 n = [digit (n div 10), digit n]"

definition pad4 :: "nat \<Rightarrow> string" where
  "pad4 n = [digit (n div 1000), digit (n div 100), digit (n div 10), digit n]"

definition date_name :: "clock_time \<Rightarrow> string" where
  "date_name t = pad4 (Year t) @ ''-'' @ pad2 (Month t) @ ''-'' @ pad2 (Day t) @ ''T''
     @ pad2 (Hour t) @ ''-'' @ pad2 (Minute t) @ ''-'' @ pad2 (Second t) @ ''.pcap''"

definition Format_pcap :: "clock_time \<Rightarrow> string" where
  "Format_pcap t = pad4 (Year t) @ ''/'' @ pad2 (Month t) @ ''/'' @ pad2 (Day t) @ ''/''
     @ pad4 (Year t) @ ''-'' @ pad2 (Month t) @ ''-'' @ pad2 (Day t) @ ''T''
     @ pad2 (Hour t) @ ''-'' @ pad2 (Minute t) @ ''-'' @ pad2 (Second t) @ ''.pcap''"

text \<open>
  \<open>filepath.Join\<close> and \<open>filepath.Dir\<close> for slash-separated paths, as the Go library
  defines them: \<open>Clean\<close> drops empty and \<open>.\<close> elements, resolves \<open>..\<close> against the
  element before it, and returns \<open>.\<close> for an empty result; \<open>Join\<close> cleans the non-empty
  elements joined by slashes; \<open>Dir\<close> cleans the path up to its last slash.
\<close>

fun split_sep :: "string \<Rightarrow> string list" where
  "split_sep [] = [[]]"
| "split_sep (c # cs) =
     (if c = CHR ''/'' then [] # split_sep cs
      else (case split_sep cs of [] \<Rightarrow> [[c]] | x # xs \<Rightarrow> (c # x) # xs))"

fun join_sep :: "string list \<Rightarrow> string" where
  "join_sep [] = []"
| "join_sep [x] = x"
| "join_sep (x # y # xs) = x @ ''/'' @ join_sep (y # xs)"

definition clean_elem :: "bool \<Rightarrow> string list \<Rightarrow> string \<Rightarrow> string list" where
  "clean_elem rooted out c =
     (if c = [] \<or> c = ''.'' then out
      else if c = ''..'' then
        (if out \<noteq> [] \<and> last out \<noteq> ''..'' then butlast out
         else if rooted then out else out @ [''..''])
      else out @ [c])"

definition filepath_Clean :: "string \<Rightarrow> string" where
  "filepath_Clean path =
     (let rooted = (path \<noteq> [] \<and> hd path = CHR ''/'');
          out = foldl (clean_elem rooted) [] (split_sep path);
          s = (if rooted then ''/'' else []) @ join_sep out
      in if s = [] then ''.'' else s)"

definition filepath_Join :: "string \<Rightarrow> string \<Rightarrow> string" where
  "filepath_Join a b =
     (if a \<noteq> [] then filepath_Clean (a @ ''/'' @ b)
      else if b \<noteq> [] then filepath_Clean b else [])"

definition filepath_Dir :: "string \<Rightarrow> string" where
  "filepath_Dir path = filepath_Clean (rev (dropWhile (\<lambda>c. c \<noteq> CHR ''/'') (rev path)))"

text \<open>
  The files of the file system, by path, with their contents (directories are not
  modelled). What the operating system answers to \<open>MkdirAll\<close> is an input; so is a
  failure of \<open>Rename\<close> for another reason than a missing source. A rename without
  such a failure moves the file, or reports that the source does not exist.
\<close>

type_synonym filesystem = "string \<rightharpoonup> byte list"

datatype os_call = MkdirAll string nat | Rename string string

record renamed =
  rn_err :: "os_error option"
  rn_fs :: filesystem
  rn_calls :: "os_call list"
  rn_log :: "string list"

record os_answers =
  MkdirAll_err :: "os_error option"
  Rename_err :: "os_error option"

definition os_Rename ::
  "os_answers \<Rightarrow> string \<Rightarrow> string \<Rightarrow> filesystem \<Rightarrow> os_error option \<times> filesystem" where
  "os_Rename os oldpath newpath fs =
     (case Rename_err os of
        Some e \<Rightarrow> (Some e, fs)
      | None \<Rightarrow>
          (case fs oldpath of
             None \<Rightarrow> (Some ErrNotExist, fs)
           | Some content \<Rightarrow> (None, (fs(oldpath := None))(newpath \<mapsto> content))))"

text \<open>
  \<open>renamePcap\<close> (lines 394 to 415) returns its error, the file system it leaves, the
  calls it made and the lines it logged. The mode 0777 is 511.
\<close>

definition renamePcap ::
  "globals \<Rightarrow> clock_time \<Rightarrow> os_answers \<Rightarrow> string \<Rightarrow> string \<Rightarrow> filesystem \<Rightarrow> renamed" where
  "renamePcap g now os tempName outputPath fs =
     (let datePart = Format_pcap now;
          (datePart, tempName) =
             (if writeCompressed g then (datePart @ ''.gz'', tempName @ ''.gz'')
              else (datePart, tempName));
          newName = filepath_Join outputPath datePart;
          mkdir = MkdirAll (filepath_Dir newName) 511
      in case MkdirAll_err os of
           Some err \<Rightarrow> \<lparr>rn_err = Some err, rn_fs = fs, rn_calls = [mkdir], rn_log = []\<rparr>
         | None \<Rightarrow>
             (case os_Rename os tempName newName fs of
                (Some err, fs') \<Rightarrow>
                   \<lparr>rn_err = (if \<not> IsNotExist err then Some err else None), rn_fs = fs',
                     rn_calls = [mkdir, Rename tempName newName], rn_log = []\<rparr>
              | (None, fs') \<Rightarrow>
                   \<lparr>rn_err = None, rn_fs = fs',
                     rn_calls = [mkdir, Rename tempName newName],
                     rn_log = [''moved '' @ tempName @ '' to '' @ newName]\<rparr>))"

text \<open>A time, a file system holding a left-over capture file, and an obliging system.\<close>

definition halloween :: clock_time where
  "halloween = \<lparr>Year = 2026, Month = 10, Day = 31, Hour = 3, Minute = 4, Second = 5\<rparr>"

definition stale_fs :: filesystem where
  "stale_fs = [''eth0_current.pcap.tmp'' \<mapsto> [212, 195, 178, 161]]"

definition os_ok :: os_answers where
  "os_ok = \<lparr>MkdirAll_err = None, Rename_err = None\<rparr>"

section \<open>Properties of the building blocks\<close>

subsection \<open>One packet\<close>

text \<open>What \<open>track\<close>, the sweep, the flush and the housekeeping do to the fields of the worker.\<close>

lemma track_seen:
  "map_of (seen (track g fr w)) =
     (map_of (seen w))(flow_of g fr \<mapsto>
        after_packet g (now_last fr) (length (packetData fr)) (entry w (flow_of g fr)))"
  by (auto simp: track_def flow_of_def entry_def after_packet_def Let_def update_conv'
      split: option.splits)

lemma track_writerchan:
  "writerchan (track g fr w) =
     writerchan w @ (if forwarded g fr w then [frame_of fr] else [])"
  by (auto simp: track_def flow_of_def entry_def forwarded_def frame_of_def Let_def
      split: option.splits)

lemma track_logs:
  "logs (track g fr w) =
     logs w @ (if \<not> forwarded g fr w \<and>
                  large_unlogged (bump (now_last fr) (length (packetData fr)) (entry w (flow_of g fr)))
               then [LargeFlow (flow_of g fr)] else [])"
  by (auto simp: track_def flow_of_def entry_def forwarded_def Let_def
      split: option.splits)

lemma track_speedup: "speedup (track g fr w) = speedup w"
  by (auto simp: track_def Let_def split: option.splits)

lemma track_lastcleanup: "lastcleanup (track g fr w) = lastcleanup w"
  by (auto simp: track_def Let_def split: option.splits)

lemma track_totalPackets: "totalPackets (track g fr w) = totalPackets w + 1"
  by (auto simp: track_def Let_def split: option.splits)

lemma map_of_deletes:
  "map_of (foldl (\<lambda>s rem. AList.delete rem s) al ks) k =
     (if k \<in> set ks then None else map_of al k)"
  by (induction ks arbitrary: al) (auto simp: delete_conv')

lemma distinct_deletes:
  "distinct (map fst al) \<Longrightarrow> distinct (map fst (foldl (\<lambda>s rem. AList.delete rem s) al ks))"
  by (induction ks arbitrary: al) (auto simp: distinct_delete)

lemma deletes_filter:
  "foldl (\<lambda>s rem. AList.delete rem s) al ks = filter (\<lambda>(k, v). k \<notin> set ks) al"
  by (induction ks arbitrary: al) (auto simp: AList.delete_eq intro!: filter_cong)

lemma sweep_seen: "seen (sweep g now w) = filter (\<lambda>(k, flw). k \<notin> fst ` {(k, flw) \<in> set (seen w). expired g now flw}) (seen w)"
  by (auto simp: sweep_def Let_def deletes_filter intro!: filter_cong)

lemma sweep_writerchan: "writerchan (sweep g now w) = writerchan w"
  by (simp add: sweep_def Let_def)

lemma sweep_large_logs: "filter (\<lambda>l. l = LargeFlow k) (logs (sweep g now w)) = filter (\<lambda>l. l = LargeFlow k) (logs w)"
  by (simp add: sweep_def Let_def)

lemma sweep_map_of: "map_of (seen (sweep g now w)) k = None \<or> map_of (seen (sweep g now w)) k = map_of (seen w) k"
  by (simp add: sweep_def Let_def map_of_deletes)

lemma flush_fields: "seen (flush st w) = seen w" "writerchan (flush st w) = writerchan w"
  "logs (flush st w) = logs w" "speedup (flush st w) = speedup w" "lastcleanup (flush st w) = lastcleanup w"
  by (simp_all add: flush_def)

lemma housekeeping_writerchan: "housekeeping g fr w = Inr w' \<Longrightarrow> writerchan w' = writerchan w"
  by (auto simp: housekeeping_def Let_def flush_fields sweep_writerchan split: if_splits sum.splits)

lemma housekeeping_large_logs: "housekeeping g fr w = Inr w' \<Longrightarrow> filter (\<lambda>l. l = LargeFlow k) (logs w') = filter (\<lambda>l. l = LargeFlow k) (logs w)"
  by (auto simp: housekeeping_def Let_def flush_fields sweep_large_logs split: if_splits sum.splits)

lemma housekeeping_map_of: "housekeeping g fr w = Inr w' \<Longrightarrow> map_of (seen w') k = None \<or> map_of (seen w') k = map_of (seen w) k"
  by (auto simp: housekeeping_def Let_def flush_fields sweep_def map_of_deletes split: if_splits sum.splits)

lemma housekeeping_set: "housekeeping g fr w = Inr w' \<Longrightarrow> set (seen w') \<subseteq> set (seen w)"
  by (auto simp: housekeeping_def Let_def flush_fields sweep_seen split: if_splits sum.splits)

lemma track_entry:
  "entry (track g fr w) k =
     (if flow_of g fr = k then after_packet g (now_last fr) (length (packetData fr)) (entry w k)
      else entry w k)"
  by (simp add: entry_def track_seen)

lemma process_entry:
  assumes "process g fr w = Inr w'"
    and "map_of (seen (track g fr w)) k \<noteq> None \<longrightarrow> map_of (seen w') k \<noteq> None"
  shows "entry w' k = (if flow_of g fr = k then after_packet g (now_last fr) (length (packetData fr)) (entry w k)
      else entry w k)"
proof -
  from assms(1) have h: "housekeeping g fr (track g fr w) = Inr w'" by (simp add: process_def)
  from housekeeping_map_of [OF h, of k] assms(2)
  have "map_of (seen w') k = map_of (seen (track g fr w)) k" by (cases "map_of (seen (track g fr w)) k") auto
  then have "entry w' k = entry (track g fr w) k" by (simp add: entry_def)
  then show ?thesis by (simp add: track_entry)
qed

lemma process_writerchan:
  "process g fr w = Inr w' \<Longrightarrow> writerchan w' = writerchan w @ (if forwarded g fr w then [frame_of fr] else [])"
  by (simp add: process_def housekeeping_writerchan track_writerchan)

lemma process_large_logs:
  "process g fr w = Inr w' \<Longrightarrow> filter (\<lambda>l. l = LargeFlow k) (logs w') =
     filter (\<lambda>l. l = LargeFlow k) (logs w) @
      (if flow_of g fr = k \<and> \<not> forwarded g fr w \<and>
                  large_unlogged (bump (now_last fr) (length (packetData fr)) (entry w k))
               then [LargeFlow k] else [])"
  by (auto simp add: process_def housekeeping_large_logs track_logs)

subsection \<open>A capture, seen from one flow\<close>

text \<open>
  While no sweep removes the entry of a flow, the entry, the frames of the flow in the
  writer's queue and its diagnostics evolve as \<open>flow_state\<close>, \<open>flow_out\<close> and
  \<open>flow_logs\<close> say, whatever the packets of other flows in between.
\<close>

lemma pkey_frame_of: "pkey g (frame_of fr) = flow_of g fr"
  by (simp add: pkey_def frame_of_def flow_of_def)

lemma run_flow:
  "kept k g frs w \<Longrightarrow> run g frs w = Inr w' \<Longrightarrow>
     entry w' k = flow_state g (entry w k) (filter (\<lambda>fr. flow_of g fr = k) frs)
   \<and> filter (\<lambda>p. pkey g p = k) (writerchan w') =
       filter (\<lambda>p. pkey g p = k) (writerchan w) @ flow_out g (entry w k) (filter (\<lambda>fr. flow_of g fr = k) frs)
   \<and> length (filter (\<lambda>l. l = LargeFlow k) (logs w')) =
       length (filter (\<lambda>l. l = LargeFlow k) (logs w)) + flow_logs g (entry w k) (filter (\<lambda>fr. flow_of g fr = k) frs)"
proof (induction frs arbitrary: w)
  case Nil
  then show ?case by simp
next
  case (Cons fr frs)
  from Cons.prems obtain w1 where p: "process g fr w = Inr w1"
    and k1: "map_of (seen (track g fr w)) k \<noteq> None \<longrightarrow> map_of (seen w1) k \<noteq> None"
    and k2: "kept k g frs w1" and r: "run g frs w1 = Inr w'"
    by (auto split: sum.splits)
  note ih = Cons.IH [OF k2 r]
  note e = process_entry [OF p k1]
  note wc = process_writerchan [OF p]
  note lg = process_large_logs [OF p, of k]
  show ?case
  proof (cases "flow_of g fr = k")
    case True
    with ih e wc lg show ?thesis
      by (simp add: pkey_frame_of forwarded_def Let_def)
  next
    case False
    with ih e wc lg show ?thesis
      by (simp add: pkey_frame_of)
  qed
qed

subsection \<open>The counters as numbers\<close>

lemma bump_simps:
  "packets (bump now n flw) = packets flw + 1"
  "last_time (bump now n flw) = now"
  "logged (bump now n flw) = logged flw"
  by (simp_all add: bump_def Let_def)

lemma uint_58_less: "n < 2 ^ 64 \<Longrightarrow> (58 :: uint) < of_nat n \<longleftrightarrow> 58 < n"
  by (simp add: word_less_nat_alt unat_of_nat)

lemma bump_bytecount:
  assumes "n < 2 ^ 64"
  shows "bytecount (bump now n flw) = bytecount flw + of_nat (n - 58)"
proof (cases "58 < n")
  case True
  then have "(of_nat n :: uint) - 58 = of_nat (n - 58)" by simp
  with True assms show ?thesis
    by (simp add: bump_def Let_def MINIMUM_IP_PACKET_SIZE_def uint_58_less)
next
  case False
  with assms show ?thesis
    by (simp add: bump_def Let_def MINIMUM_IP_PACKET_SIZE_def uint_58_less)
qed

lemma after_packet_simps:
  "packets (after_packet g now n flw) = packets flw + 1"
  "last_time (after_packet g now n flw) = now"
  "bytecount (after_packet g now n flw) = bytecount (bump now n flw)"
  by (simp_all add: after_packet_def Let_def bump_simps)

lemma unat_Suc_packets:
  "unat (x :: uint) + 1 < 2 ^ 64 \<Longrightarrow> unat (x + 1) = unat x + 1"
  by (simp add: unat_word_ariths)

lemma unat_add_bytes:
  "unat (x :: uint) + n < 2 ^ 64 \<Longrightarrow> unat (x + of_nat n) = unat x + n"
  by (simp add: unat_word_ariths unat_of_nat)

lemma continues_nat:
  "continues g flw \<longleftrightarrow> unat (bytecount flw) < unat (flowByteCutoff g) \<and> unat (packets flw) < unat (flowPacketCutoff g)"
  by (simp add: continues_def word_less_nat_alt)

lemma flow_out_take:
  assumes "unat (packets flw) + length frs < 2 ^ 64"
    and "\<forall>fr\<in>set frs. length (packetData fr) \<le> MAX_ETHERNET_MTU"
    and "unat (bytecount flw) + sum_list (map payload frs) < unat (flowByteCutoff g)"
  shows "flow_out g flw frs = map frame_of (take (unat (flowPacketCutoff g) - 1 - unat (packets flw)) frs)"
  using assms
proof (induction frs arbitrary: flw)
  case Nil
  then show ?case by simp
next
  case (Cons fr frs)
  let ?n = "length (packetData fr)"
  let ?f = "after_packet g (now_last fr) ?n flw"
  have n: "?n < 2 ^ 64" using Cons.prems(2) by (simp add: MAX_ETHERNET_MTU_def)
  have bc: "unat (flowByteCutoff g) < 2 ^ 64" using unsigned_less [of "flowByteCutoff g", where ?'a = nat] by simp
  have p: "unat (packets ?f) = unat (packets flw) + 1"
    using Cons.prems(1) by (simp add: after_packet_simps unat_Suc_packets)
  have b: "unat (bytecount ?f) = unat (bytecount flw) + payload fr"
    using Cons.prems(3) bc n by (simp add: after_packet_simps bump_bytecount unat_add_bytes payload_def)
  have ih: "flow_out g ?f frs = map frame_of (take (unat (flowPacketCutoff g) - 1 - unat (packets ?f)) frs)"
    using Cons.prems p b by (intro Cons.IH) auto
  have c: "continues g (bump (now_last fr) ?n flw) \<longleftrightarrow> unat (packets flw) + 1 < unat (flowPacketCutoff g)"
    using p b Cons.prems(3) by (simp add: continues_nat after_packet_simps bump_simps)
  show ?case
  proof (cases "unat (packets flw) + 1 < unat (flowPacketCutoff g)")
    case True
    then obtain m where m: "unat (flowPacketCutoff g) - 1 - unat (packets flw) = Suc m"
      by (metis Suc_diff_Suc add.commute diff_diff_left plus_1_eq_Suc less_diff_conv)
    then have "unat (flowPacketCutoff g) - 1 - unat (packets ?f) = m" using p by simp
    with True c ih m show ?thesis by simp
  next
    case False
    then have "unat (flowPacketCutoff g) - 1 - unat (packets flw) = 0" by simp
    moreover have "unat (flowPacketCutoff g) - 1 - unat (packets ?f) = 0" using False p by simp
    ultimately show ?thesis using False c ih by simp
  qed
qed

subsection \<open>Captures shorter than one housekeeping period, and the packet counters\<close>

lemma doSniff_run: "doSniff g False False t frs False = run g frs (init_worker t)"
  by (simp add: doSniff_def split: sum.splits)

lemma housekeeping_early:
  "speedup w + 1 < 5000 \<Longrightarrow> housekeeping g fr w = Inr (w\<lparr>speedup := speedup w + 1\<rparr>)"
  by (simp add: housekeeping_def)

lemma process_early:
  "speedup w + 1 < 5000 \<Longrightarrow> process g fr w = Inr ((track g fr w)\<lparr>speedup := speedup w + 1\<rparr>)"
  by (simp add: process_def housekeeping_early track_speedup)

lemma short_run:
  "speedup w + length frs < 5000 \<Longrightarrow> kept k g frs w \<and> (\<exists>w'. run g frs w = Inr w')"
proof (induction frs arbitrary: w)
  case Nil
  then show ?case by simp
next
  case (Cons fr frs)
  let ?w = "(track g fr w)\<lparr>speedup := speedup w + 1\<rparr>"
  have p: "process g fr w = Inr ?w" using Cons.prems by (simp add: process_early)
  have "speedup ?w + length frs < 5000" using Cons.prems by simp
  from Cons.IH [OF this] p show ?case by simp
qed

lemma run_writerchan_key:
  "run g frs w = Inr w' \<Longrightarrow> \<forall>fr\<in>set frs. flow_of g fr = k \<Longrightarrow>
   \<forall>p\<in>set (writerchan w). pkey g p = k \<Longrightarrow> \<forall>p\<in>set (writerchan w'). pkey g p = k"
proof (induction frs arbitrary: w)
  case Nil
  then show ?case by simp
next
  case (Cons fr frs)
  from Cons.prems(1) obtain w1 where p: "process g fr w = Inr w1" and r: "run g frs w1 = Inr w'"
    by (auto split: sum.splits)
  have "\<forall>p\<in>set (writerchan w1). pkey g p = k"
    using process_writerchan [OF p] Cons.prems(2,3) by (auto simp: pkey_frame_of)
  with Cons.IH [OF r] Cons.prems(2) show ?case by simp
qed

lemma flush_counts:
  "mPackets (registry (flush st w)) + unat (totalPackets (flush st w)) = mPackets (registry w) + unat (totalPackets w)"
  "mOutput (registry (flush st w)) + unat (outputPackets (flush st w)) = mOutput (registry w) + unat (outputPackets w)"
  by (simp_all add: flush_def)

lemma sweep_counts:
  "mPackets (registry (sweep g now w)) = mPackets (registry w)" "totalPackets (sweep g now w) = totalPackets w"
  "mOutput (registry (sweep g now w)) = mOutput (registry w)" "outputPackets (sweep g now w) = outputPackets w"
  by (simp_all add: sweep_def Let_def)

lemma housekeeping_counts:
  assumes "housekeeping g fr w = Inr w'"
  shows "mPackets (registry w') + unat (totalPackets w') = mPackets (registry w) + unat (totalPackets w)"
    and "mOutput (registry w') + unat (outputPackets w') = mOutput (registry w) + unat (outputPackets w)"
    and "unat (totalPackets w') \<le> unat (totalPackets w)"
    and "unat (outputPackets w') \<le> unat (outputPackets w)"
  using assms
  by (auto simp: housekeeping_def Let_def flush_counts sweep_counts split: if_splits sum.splits)
     (simp_all add: flush_def)

lemma track_counts:
  "mPackets (registry (track g fr w)) = mPackets (registry w)"
  "mOutput (registry (track g fr w)) = mOutput (registry w)"
  "outputPackets (track g fr w) = outputPackets w + (if forwarded g fr w then 1 else 0)"
  by (auto simp: track_def flow_of_def entry_def forwarded_def Let_def split: option.splits)

lemma run_counts:
  "run g frs w = Inr w' \<Longrightarrow> unat (totalPackets w) + length frs < 2 ^ 64 \<Longrightarrow>
   unat (outputPackets w) + length frs < 2 ^ 64 \<Longrightarrow>
     mPackets (registry w') + unat (totalPackets w') = mPackets (registry w) + unat (totalPackets w) + length frs
   \<and> mOutput (registry w') + unat (outputPackets w') + length (writerchan w)
       = mOutput (registry w) + unat (outputPackets w) + length (writerchan w')"
proof (induction frs arbitrary: w)
  case Nil
  then show ?case by simp
next
  case (Cons fr frs)
  from Cons.prems(1) obtain w1 where p: "process g fr w = Inr w1" and r: "run g frs w1 = Inr w'"
    by (auto split: sum.splits)
  from p have h: "housekeeping g fr (track g fr w) = Inr w1" by (simp add: process_def)
  note hc = housekeeping_counts [OF h]
  have t: "unat (totalPackets (track g fr w)) = unat (totalPackets w) + 1"
    using Cons.prems(2) by (simp add: track_totalPackets unat_Suc_packets)
  have o: "unat (outputPackets (track g fr w)) = unat (outputPackets w) + (if forwarded g fr w then 1 else 0)"
    using Cons.prems(3) by (simp add: track_counts unat_Suc_packets)
  have b1: "unat (totalPackets w1) + length frs < 2 ^ 64" using hc(3) t Cons.prems(2) by simp
  have b2: "unat (outputPackets w1) + length frs < 2 ^ 64" using hc(4) o Cons.prems(3) by (simp split: if_splits)
  from Cons.IH [OF r b1 b2] hc(1,2) t o process_writerchan [OF p]
  show ?case by (simp add: track_counts split: if_splits)
qed


lemma single_flow_head:
  assumes "\<forall>fr\<in>set frs. flow_of g fr = k"
    and "\<forall>fr\<in>set frs. length (packetData fr) \<le> MAX_ETHERNET_MTU"
    and "sum_list (map payload frs) < unat (flowByteCutoff g)"
    and "length frs < 2 ^ 64"
    and "kept k g frs (init_worker t)"
    and "run g frs (init_worker t) = Inr w"
  shows "writerchan w = map frame_of (take (unat (flowPacketCutoff g) - 1) frs)
       \<and> length (writerchan w) = min (length frs) (unat (flowPacketCutoff g) - 1)
       \<and> mPackets (registry w) + unat (totalPackets w) = length frs
       \<and> mOutput (registry w) + unat (outputPackets w) = min (length frs) (unat (flowPacketCutoff g) - 1)"
proof -
  note r = assms(6)
  have f: "filter (\<lambda>fr. flow_of g fr = k) frs = frs" using assms(1) by simp
  have "\<forall>p\<in>set (writerchan w). pkey g p = k"
    using run_writerchan_key [OF r assms(1)] by (simp add: init_worker_def)
  then have fw: "filter (\<lambda>p. pkey g p = k) (writerchan w) = writerchan w" by simp
  have z: "entry (init_worker t) k = zero_trackedFlow" by (simp add: entry_def init_worker_def)
  from run_flow [OF assms(5) r] have "writerchan w = flow_out g zero_trackedFlow frs"
    by (simp add: f fw z) (simp add: init_worker_def)
  also have "\<dots> = map frame_of (take (unat (flowPacketCutoff g) - 1 - unat (packets zero_trackedFlow)) frs)"
    using assms(2,3,4) by (intro flow_out_take) (simp_all add: zero_trackedFlow_def)
  finally have 1: "writerchan w = map frame_of (take (unat (flowPacketCutoff g) - 1) frs)"
    by (simp add: zero_trackedFlow_def)
  then have 2: "length (writerchan w) = min (length frs) (unat (flowPacketCutoff g) - 1)" by simp
  from run_counts [OF r] assms(4) 2 have
    "mPackets (registry w) + unat (totalPackets w) = length frs
     \<and> mOutput (registry w) + unat (outputPackets w) = min (length frs) (unat (flowPacketCutoff g) - 1)"
    by (simp add: init_worker_def zero_metrics_def)
  with 1 2 show ?thesis by simp
qed


lemma S1_facts:
  "\<forall>fr\<in>set S1_frames. flow_of S1_globals fr = five_tuple tcp_layers"
  "\<forall>fr\<in>set S1_frames. length (packetData fr) \<le> MAX_ETHERNET_MTU"
  "sum_list (map payload S1_frames) < unat (flowByteCutoff S1_globals)"
  "length S1_frames = 200"
  "kept (five_tuple tcp_layers) S1_globals S1_frames (init_worker 0)"
  "\<exists>w. run S1_globals S1_frames (init_worker 0) = Inr w"
proof -
  show "\<forall>fr\<in>set S1_frames. flow_of S1_globals fr = five_tuple tcp_layers"
    by (simp add: S1_frames_def flow_of_def S1_globals_def)
  show "\<forall>fr\<in>set S1_frames. length (packetData fr) \<le> MAX_ETHERNET_MTU"
    by (simp add: S1_frames_def frame_at_def MAX_ETHERNET_MTU_def)
  have "payload \<circ> frame_at 100 = (\<lambda>i. 42)"
    by (simp add: fun_eq_iff payload_def frame_at_def)
  then have "map payload S1_frames = replicate 200 42"
    by (simp add: S1_frames_def map_replicate_const)
  then show "sum_list (map payload S1_frames) < unat (flowByteCutoff S1_globals)"
    by (simp add: sum_list_replicate S1_globals_def)
  show l: "length S1_frames = 200" by (simp add: S1_frames_def)
  have "speedup (init_worker 0) + length S1_frames < 5000" by (simp add: l init_worker_def)
  from short_run [OF this] show "kept (five_tuple tcp_layers) S1_globals S1_frames (init_worker 0)"
    "\<exists>w. run S1_globals S1_frames (init_worker 0) = Inr w" by auto
qed

subsection \<open>The packet counter of every entry\<close>

lemma set_update_subset: "set (AList.update k v al) \<subseteq> insert (k, v) (set al)"
  by (induction al) auto

lemma entry_cases: "entry w k = zero_trackedFlow \<or> (k, entry w k) \<in> set (seen w)"
  by (auto simp: entry_def dest: map_of_SomeD split: option.splits)

lemma track_set:
  assumes "(k, flw) \<in> set (seen (track g fr w))"
  shows "(k, flw) \<in> set (seen w) \<or>
         (k = flow_of g fr \<and> flw = after_packet g (now_last fr) (length (packetData fr)) (entry w k))"
proof -
  have "seen (track g fr w) = AList.update (flow_of g fr)
          (after_packet g (now_last fr) (length (packetData fr)) (entry w (flow_of g fr))) (seen w)"
    by (auto simp: track_def flow_of_def entry_def after_packet_def Let_def split: option.splits)
  with assms set_update_subset show ?thesis by fastforce
qed

lemma entry_bounded:
  assumes "\<forall>(k, flw)\<in>set (seen w). 1 \<le> unat (packets flw) \<and> unat (packets flw) \<le> n"
  shows "unat (packets (entry w k)) \<le> n"
  using entry_cases [of w k] assms by (auto simp: zero_trackedFlow_def)

lemma track_bounded:
  assumes "\<forall>(k, flw)\<in>set (seen w). 1 \<le> unat (packets flw) \<and> unat (packets flw) \<le> n"
    and "n + 1 < 2 ^ 64"
  shows "\<forall>(k, flw)\<in>set (seen (track g fr w)). 1 \<le> unat (packets flw) \<and> unat (packets flw) \<le> n + 1"
proof (clarify)
  fix k flw assume "(k, flw) \<in> set (seen (track g fr w))"
  from track_set [OF this] show "1 \<le> unat (packets flw) \<and> unat (packets flw) \<le> n + 1"
  proof
    assume "(k, flw) \<in> set (seen w)"
    with assms(1) show ?thesis by fastforce
  next
    assume a: "k = flow_of g fr \<and> flw = after_packet g (now_last fr) (length (packetData fr)) (entry w k)"
    have "unat (packets (entry w k)) + 1 < 2 ^ 64" using entry_bounded [OF assms(1), of k] assms(2) by simp
    then have "unat (packets flw) = unat (packets (entry w k)) + 1"
      using a by (simp add: after_packet_simps unat_Suc_packets)
    with entry_bounded [OF assms(1), of k] show ?thesis by simp
  qed
qed

lemma process_bounded:
  assumes "\<forall>(k, flw)\<in>set (seen w). 1 \<le> unat (packets flw) \<and> unat (packets flw) \<le> n"
    and "n + 1 < 2 ^ 64" and "process g fr w = Inr w'"
  shows "\<forall>(k, flw)\<in>set (seen w'). 1 \<le> unat (packets flw) \<and> unat (packets flw) \<le> n + 1"
proof -
  from assms(3) have "set (seen w') \<subseteq> set (seen (track g fr w))"
    by (simp add: process_def housekeeping_set)
  with track_bounded [OF assms(1,2), of g fr] show ?thesis by blast
qed

lemma run_bounded:
  "\<forall>(k, flw)\<in>set (seen w). 1 \<le> unat (packets flw) \<and> unat (packets flw) \<le> n \<Longrightarrow>
   n + length frs < 2 ^ 64 \<Longrightarrow> run g frs w = Inr w' \<Longrightarrow>
   \<forall>(k, flw)\<in>set (seen w'). 1 \<le> unat (packets flw) \<and> unat (packets flw) \<le> n + length frs"
proof (induction frs arbitrary: w n)
  case Nil
  then show ?case by simp
next
  case (Cons fr frs)
  from Cons.prems(3) obtain w1 where p: "process g fr w = Inr w1" and r: "run g frs w1 = Inr w'"
    by (auto split: sum.splits)
  have n: "n + 1 < 2 ^ 64" using Cons.prems(2) by simp
  have "(n + 1) + length frs < 2 ^ 64" using Cons.prems(2) by simp
  from Cons.IH [OF process_bounded [OF Cons.prems(1) n p] this r] show ?case by simp
qed

lemma sweep_set: "set (seen (sweep g now w)) \<subseteq> set (seen w)"
  by (auto simp: sweep_seen)

lemma word_one_le: "1 \<le> (x :: uint) \<longleftrightarrow> 1 \<le> unat x"
  by (simp add: word_le_nat_alt)

lemma cutoff_one_drops:
  assumes "flowPacketCutoff g \<le> 1"
    and "\<forall>(k, flw)\<in>set (seen w). 1 \<le> unat (packets flw) \<and> unat (packets flw) \<le> n"
    and "n + 1 < 2 ^ 64"
  shows "\<not> forwarded g fr w"
proof -
  let ?k = "flow_of g fr"
  have "unat (packets (entry w ?k)) + 1 < 2 ^ 64" using entry_bounded [OF assms(2), of ?k] assms(3) by simp
  then have "unat (packets (bump (now_last fr) (length (packetData fr)) (entry w ?k))) = unat (packets (entry w ?k)) + 1"
    by (simp add: bump_simps unat_Suc_packets)
  moreover have "unat (flowPacketCutoff g) \<le> 1" using assms(1) by (simp add: word_le_nat_alt)
  ultimately show ?thesis by (simp add: forwarded_def continues_nat)
qed

lemma cutoff_one_run:
  "flowPacketCutoff g \<le> 1 \<Longrightarrow>
   \<forall>(k, flw)\<in>set (seen w). 1 \<le> unat (packets flw) \<and> unat (packets flw) \<le> n \<Longrightarrow>
   n + length frs < 2 ^ 64 \<Longrightarrow> run g frs w = Inr w' \<Longrightarrow> writerchan w' = writerchan w"
proof (induction frs arbitrary: w n)
  case Nil
  then show ?case by simp
next
  case (Cons fr frs)
  from Cons.prems(4) obtain w1 where p: "process g fr w = Inr w1" and r: "run g frs w1 = Inr w'"
    by (auto split: sum.splits)
  have n: "n + 1 < 2 ^ 64" using Cons.prems(3) by simp
  have m: "(n + 1) + length frs < 2 ^ 64" using Cons.prems(3) by simp
  have "writerchan w1 = writerchan w"
    using process_writerchan [OF p] cutoff_one_drops [OF Cons.prems(1,2) n] by simp
  with Cons.IH [OF Cons.prems(1) process_bounded [OF Cons.prems(2) n p] m r] show ?case by simp
qed


lemmas worker_defs = process_def housekeeping_def track_def bump_def continues_def
  large_unlogged_def init_worker_def zero_metrics_def zero_trackedFlow_def frame_at_def
  ok_stats_def MINIMUM_IP_PACKET_SIZE_def LARGE_FLOW_SIZE_def Let_def

lemma two_frames_run:
  "\<exists>w. run S1_globals [frame_at 100 0, frame_at 100 1] (init_worker 0) = Inr w
     \<and> seen w = [(five_tuple tcp_layers,
          \<lparr>packets = 2, bytecount = 84, last_time = 1, logged = False\<rparr>)]"
  by (simp add: worker_defs S1_globals_def)

subsection \<open>The state of a flow after several packets\<close>

lemma frame_len: "length (packetData fr) \<le> MAX_ETHERNET_MTU \<Longrightarrow> length (packetData fr) < 2 ^ 64"
  by (simp add: MAX_ETHERNET_MTU_def)

lemma bump_bytecount_frame:
  "length (packetData fr) \<le> MAX_ETHERNET_MTU \<Longrightarrow>
   bytecount (bump now (length (packetData fr)) flw) = bytecount flw + of_nat (payload fr)"
  using bump_bytecount [OF frame_len] by (simp add: payload_def)

lemma after_packet_bytecount:
  "length (packetData fr) \<le> MAX_ETHERNET_MTU \<Longrightarrow>
   bytecount (after_packet g now (length (packetData fr)) flw) = bytecount flw + of_nat (payload fr)"
  by (simp add: after_packet_simps bump_bytecount_frame)

lemma flow_state_bytecount:
  "\<forall>fr\<in>set frs. length (packetData fr) \<le> MAX_ETHERNET_MTU \<Longrightarrow>
   bytecount (flow_state g flw frs) = bytecount flw + of_nat (sum_list (map payload frs))"
  by (induction frs arbitrary: flw) (simp_all add: after_packet_bytecount)

lemma flow_state_packets:
  "packets (flow_state g flw frs) = packets flw + of_nat (length frs)"
  by (induction frs arbitrary: flw) (simp_all add: after_packet_simps)

lemma flow_state_last_time:
  "last_time (flow_state g flw frs) = (if frs = [] then last_time flw else now_last (last frs))"
proof (induction frs arbitrary: flw)
  case Nil
  then show ?case by simp
next
  case (Cons fr frs)
  then show ?case by (cases frs) (simp_all add: after_packet_simps)
qed

lemma after_packet_logged:
  "logged (after_packet g now n flw) \<longleftrightarrow>
     logged flw \<or> (\<not> continues g (bump now n flw) \<and> LARGE_FLOW_SIZE < bytecount (bump now n flw))"
  by (auto simp: after_packet_def Let_def large_unlogged_def bump_simps)

lemma flow_state_logged_mono: "logged flw \<Longrightarrow> logged (flow_state g flw frs)"
  by (induction frs arbitrary: flw) (simp_all add: after_packet_logged)

lemma flow_logs_flag:
  "flow_logs g flw frs = (if logged (flow_state g flw frs) \<and> \<not> logged flw then 1 else 0)"
proof (induction frs arbitrary: flw)
  case Nil
  then show ?case by simp
next
  case (Cons fr frs)
  let ?b = "bump (now_last fr) (length (packetData fr)) flw"
  let ?a = "after_packet g (now_last fr) (length (packetData fr)) flw"
  show ?case
  proof (cases "logged flw")
    case True
    then have "logged ?a" by (simp add: after_packet_logged)
    with True Cons.IH [of ?a] show ?thesis
      by (simp add: Let_def large_unlogged_def bump_simps flow_state_logged_mono)
  next
    case False
    show ?thesis
    proof (cases "\<not> continues g ?b \<and> large_unlogged ?b")
      case True
      then have "logged ?a" by (simp add: after_packet_logged large_unlogged_def)
      with True False Cons.IH [of ?a] show ?thesis
        by (simp add: Let_def flow_state_logged_mono)
    next
      case f: False
      then have "\<not> logged ?a" using False by (auto simp: after_packet_logged large_unlogged_def bump_simps)
      with f False Cons.IH [of ?a] show ?thesis
        by (auto simp add: Let_def)
    qed
  qed
qed

lemma cut_step:
  assumes "\<not> continues g flw"
    and "length (packetData fr) \<le> MAX_ETHERNET_MTU"
    and "unat (packets flw) + 1 < 2 ^ 64"
    and "unat (bytecount flw) + payload fr < 2 ^ 64"
  shows "\<not> continues g (bump (now_last fr) (length (packetData fr)) flw)"
    and "\<not> continues g (after_packet g (now_last fr) (length (packetData fr)) flw)"
proof -
  let ?b = "bump (now_last fr) (length (packetData fr)) flw"
  have p: "unat (packets ?b) = unat (packets flw) + 1"
    using assms(3) by (simp add: bump_simps unat_Suc_packets)
  have b: "unat (bytecount ?b) = unat (bytecount flw) + payload fr"
    using assms(2,4) by (simp add: bump_bytecount_frame unat_add_bytes)
  from assms(1) p b show 1: "\<not> continues g ?b" by (auto simp: continues_nat)
  then show "\<not> continues g (after_packet g (now_last fr) (length (packetData fr)) flw)"
    by (simp add: continues_def after_packet_simps bump_simps)
qed

lemma flow_cut:
  "\<not> continues g flw \<Longrightarrow> \<forall>fr\<in>set frs. length (packetData fr) \<le> MAX_ETHERNET_MTU \<Longrightarrow>
   unat (packets flw) + length frs < 2 ^ 64 \<Longrightarrow>
   unat (bytecount flw) + sum_list (map payload frs) < 2 ^ 64 \<Longrightarrow>
   flow_out g flw frs = [] \<and> \<not> continues g (flow_state g flw frs)"
proof (induction frs arbitrary: flw)
  case Nil
  then show ?case by simp
next
  case (Cons fr frs)
  let ?a = "after_packet g (now_last fr) (length (packetData fr)) flw"
  have l: "length (packetData fr) \<le> MAX_ETHERNET_MTU" using Cons.prems(2) by simp
  have p1: "unat (packets flw) + 1 < 2 ^ 64" using Cons.prems(3) by simp
  have b1: "unat (bytecount flw) + payload fr < 2 ^ 64" using Cons.prems(4) by simp
  note c = cut_step [OF Cons.prems(1) l p1 b1]
  have p: "unat (packets ?a) = unat (packets flw) + 1"
    using p1 by (simp add: after_packet_simps unat_Suc_packets)
  have b: "unat (bytecount ?a) = unat (bytecount flw) + payload fr"
    using l b1 by (simp add: after_packet_bytecount unat_add_bytes)
  have "flow_out g ?a frs = [] \<and> \<not> continues g (flow_state g ?a frs)"
    using Cons.prems p b by (intro Cons.IH [OF c(2)]) simp_all
  with c(1) show ?case by simp
qed

lemma kept_present:
  "kept k g frs w \<Longrightarrow> run g frs w = Inr w' \<Longrightarrow>
   map_of (seen w) k \<noteq> None \<or> (\<exists>fr\<in>set frs. flow_of g fr = k) \<Longrightarrow> map_of (seen w') k \<noteq> None"
proof (induction frs arbitrary: w)
  case Nil
  then show ?case by simp
next
  case (Cons fr frs)
  from Cons.prems(1,2) obtain w1 where p: "process g fr w = Inr w1"
    and k1: "map_of (seen (track g fr w)) k \<noteq> None \<longrightarrow> map_of (seen w1) k \<noteq> None"
    and k2: "kept k g frs w1" and r: "run g frs w1 = Inr w'"
    by (auto split: sum.splits)
  show ?case
  proof (cases "map_of (seen w) k \<noteq> None \<or> flow_of g fr = k")
    case True
    then have "map_of (seen (track g fr w)) k \<noteq> None" by (auto simp: track_seen)
    with k1 Cons.IH [OF k2 r] show ?thesis by simp
  next
    case False
    with Cons.prems(3) have "\<exists>fr\<in>set frs. flow_of g fr = k" by auto
    with Cons.IH [OF k2 r] show ?thesis by simp
  qed
qed

lemma sweep_removes_expired:
  assumes "map_of (seen w) k = Some flw" and "map_of (seen (sweep g now w)) k = None"
  shows "\<exists>flw'. (k, flw') \<in> set (seen w) \<and> expired g now flw'"
  using assms by (auto simp: sweep_def Let_def map_of_deletes split: if_splits)

lemma process_removes_expired:
  assumes "process g fr w = Inr w'"
    and "map_of (seen (track g fr w)) k \<noteq> None" and "map_of (seen w') k = None"
  shows "speedup w + 1 = 5000 \<and> packetTimeInterval g < now_since fr - lastcleanup w
       \<and> (\<exists>flw'. (k, flw') \<in> set (seen (track g fr w)) \<and> expired g (now_cleanup fr) flw')"
proof -
  let ?t = "track g fr w"
  from assms(1) have h: "housekeeping g fr ?t = Inr w'" by (simp add: process_def)
  from assms(2) obtain flw where f: "map_of (seen ?t) k = Some flw" by auto
  from h assms(3) f have 1: "speedup ?t + 1 = 5000" and 2: "packetTimeInterval g < now_since fr - lastcleanup ?t"
    by (auto simp: housekeeping_def Let_def flush_fields split: if_splits sum.splits)
  from h 1 2 obtain st where "w' = flush st (sweep g (now_cleanup fr) (?t\<lparr>speedup := 0, pcapStats := Some st\<rparr>))"
    by (auto simp: housekeeping_def Let_def split: if_splits sum.splits)
  with assms(3) have "map_of (seen (sweep g (now_cleanup fr) (?t\<lparr>speedup := 0, pcapStats := Some st\<rparr>))) k = None"
    by (simp add: flush_fields)
  from sweep_removes_expired [OF _ this, of flw] f
  have "\<exists>flw'. (k, flw') \<in> set (seen ?t) \<and> expired g (now_cleanup fr) flw'" by simp
  with 1 2 show ?thesis by (simp add: track_speedup track_lastcleanup)
qed

lemma S2_run:
  "map_sum id writerchan (run S2_globals S2_frames (init_worker 0)) = Inr (map frame_of (take 4 S2_frames))"
  by (simp add: worker_defs S2_globals_def S2_frames_def frame_of_def)

lemma jumbo_run:
  "map_sum id writerchan (run S2_globals [frame_at 9000 0] (init_worker 0)) = Inr []"
  by (simp add: worker_defs S2_globals_def)

lemma S2_after5:
  "\<exists>w. run S2_globals (take 5 S2_frames) (init_worker 0) = Inr w
     \<and> seen w = [(five_tuple tcp_layers,
          \<lparr>packets = 5, bytecount = 9710, last_time = 4, logged = False\<rparr>)]
     \<and> speedup w = 5 \<and> writerchan w = map frame_of (take 4 S2_frames)"
  by (simp add: worker_defs S2_globals_def S2_frames_def frame_of_def)

lemma S2_flow: "flow_of S2_globals fr = five_tuple tcp_layers"
  by (simp add: flow_of_def S2_globals_def)

lemma not_continues: "\<not> continues g flw \<longleftrightarrow> flowPacketCutoff g \<le> packets flw \<or> flowByteCutoff g \<le> bytecount flw"
  by (auto simp: continues_def not_less)


lemma flow_large_exact:
  "unat (flowByteCutoff g) \<le> unat LARGE_FLOW_SIZE + 1 \<Longrightarrow>
   \<forall>fr\<in>set frs. length (packetData fr) \<le> MAX_ETHERNET_MTU \<Longrightarrow>
   unat (bytecount flw) + sum_list (map payload frs) < 2 ^ 64 \<Longrightarrow>
   logged flw \<longleftrightarrow> LARGE_FLOW_SIZE < bytecount flw \<Longrightarrow>
   logged (flow_state g flw frs) \<longleftrightarrow> LARGE_FLOW_SIZE < bytecount (flow_state g flw frs)"
proof (induction frs arbitrary: flw)
  case Nil
  then show ?case by simp
next
  case (Cons fr frs)
  let ?b = "bump (now_last fr) (length (packetData fr)) flw"
  let ?a = "after_packet g (now_last fr) (length (packetData fr)) flw"
  have l: "length (packetData fr) \<le> MAX_ETHERNET_MTU" using Cons.prems(2) by simp
  have b1: "unat (bytecount flw) + payload fr < 2 ^ 64" using Cons.prems(3) by simp
  have b: "unat (bytecount ?a) = unat (bytecount flw) + payload fr"
    using l b1 by (simp add: after_packet_bytecount unat_add_bytes)
  have ab: "bytecount ?a = bytecount ?b" by (simp add: after_packet_simps)
  have "logged ?a \<longleftrightarrow> LARGE_FLOW_SIZE < bytecount ?a"
  proof (cases "logged flw")
    case True
    with Cons.prems(4) have "unat LARGE_FLOW_SIZE < unat (bytecount flw)" by (simp add: word_less_nat_alt)
    with b have "LARGE_FLOW_SIZE < bytecount ?a" by (simp add: word_less_nat_alt)
    with True show ?thesis by (simp add: after_packet_logged)
  next
    case False
    have "LARGE_FLOW_SIZE < bytecount ?b \<Longrightarrow> \<not> continues g ?b"
      using Cons.prems(1) by (simp add: continues_nat word_less_nat_alt)
    with False show ?thesis by (auto simp: after_packet_logged ab)
  qed
  moreover have "unat (bytecount ?a) + sum_list (map payload frs) < 2 ^ 64"
    using b Cons.prems(3) by simp
  ultimately have "logged (flow_state g ?a frs) \<longleftrightarrow> LARGE_FLOW_SIZE < bytecount (flow_state g ?a frs)"
    using Cons.prems(1,2) by (intro Cons.IH) simp_all
  then show ?case by simp
qed

lemma flow_continues_unlogged:
  "\<forall>fr\<in>set frs. length (packetData fr) \<le> MAX_ETHERNET_MTU \<Longrightarrow>
   unat (bytecount flw) + sum_list (map payload frs) < unat (flowByteCutoff g) \<Longrightarrow>
   unat (packets flw) + length frs < unat (flowPacketCutoff g) \<Longrightarrow>
   logged (flow_state g flw frs) = logged flw"
proof (induction frs arbitrary: flw)
  case Nil
  then show ?case by simp
next
  case (Cons fr frs)
  let ?b = "bump (now_last fr) (length (packetData fr)) flw"
  let ?a = "after_packet g (now_last fr) (length (packetData fr)) flw"
  have bc: "unat (flowByteCutoff g) < 2 ^ 64" using unsigned_less [of "flowByteCutoff g", where ?'a = nat] by simp
  have pc: "unat (flowPacketCutoff g) < 2 ^ 64" using unsigned_less [of "flowPacketCutoff g", where ?'a = nat] by simp
  have l: "length (packetData fr) \<le> MAX_ETHERNET_MTU" using Cons.prems(1) by simp
  have b: "unat (bytecount ?a) = unat (bytecount flw) + payload fr"
    using l bc Cons.prems(2) by (simp add: after_packet_bytecount unat_add_bytes)
  have p: "unat (packets ?a) = unat (packets flw) + 1"
    using pc Cons.prems(3) by (simp add: after_packet_simps unat_Suc_packets)
  have "continues g ?b"
    using b p Cons.prems(2,3) by (simp add: continues_nat after_packet_simps bump_simps)
  then have a: "logged ?a = logged flw" by (simp add: after_packet_logged)
  have "logged (flow_state g ?a frs) = logged ?a"
    using b p Cons.prems by (intro Cons.IH) simp_all
  with a show ?case by simp
qed

subsection \<open>One entry per key\<close>

lemma track_distinct: "distinct (map fst (seen w)) \<Longrightarrow> distinct (map fst (seen (track g fr w)))"
  by (auto simp: track_def Let_def distinct_update split: option.splits)

lemma sweep_distinct: "distinct (map fst (seen w)) \<Longrightarrow> distinct (map fst (seen (sweep g now w)))"
  by (simp add: sweep_def Let_def distinct_deletes)

lemma housekeeping_distinct:
  "housekeeping g fr w = Inr w' \<Longrightarrow> distinct (map fst (seen w)) \<Longrightarrow> distinct (map fst (seen w'))"
  by (auto simp: housekeeping_def Let_def flush_fields sweep_distinct split: if_splits sum.splits)

lemma process_distinct:
  "process g fr w = Inr w' \<Longrightarrow> distinct (map fst (seen w)) \<Longrightarrow> distinct (map fst (seen w'))"
  by (auto simp: process_def dest: housekeeping_distinct track_distinct)

lemma run_distinct:
  "run g frs w = Inr w' \<Longrightarrow> distinct (map fst (seen w)) \<Longrightarrow> distinct (map fst (seen w'))"
  by (induction frs arbitrary: w) (auto split: sum.splits dest: process_distinct)

lemma sweep_keeps_fresh:
  assumes "distinct (map fst (seen w))" and "map_of (seen w) k = Some flw" and "\<not> expired g now flw"
  shows "map_of (seen (sweep g now w)) k = Some flw"
proof -
  have "\<And>flw'. (k, flw') \<in> set (seen w) \<Longrightarrow> flw' = flw"
    using assms(1,2) by (metis map_of_is_SomeI option.inject)
  with assms(2,3) show ?thesis
    by (auto simp: sweep_def Let_def map_of_deletes)
qed

lemma process_prompt:
  assumes "distinct (map fst (seen w))" and "handle_Stats fr = Inr st"
    and "now_cleanup fr - now_last fr \<le> flowTimeout g"
  shows "\<exists>w'. process g fr w = Inr w' \<and> map_of (seen w') (flow_of g fr) \<noteq> None"
proof -
  let ?t = "track g fr w"
  let ?k = "flow_of g fr"
  let ?a = "after_packet g (now_last fr) (length (packetData fr)) (entry w ?k)"
  have m: "map_of (seen ?t) ?k = Some ?a" by (simp add: track_seen)
  have e: "\<not> expired g (now_cleanup fr) ?a" using assms(3) by (simp add: expired_def after_packet_simps)
  have d: "distinct (map fst (seen ?t))" using assms(1) by (rule track_distinct)
  have "map_of (seen (sweep g (now_cleanup fr) (?t\<lparr>speedup := 0, pcapStats := Some st\<rparr>))) ?k = Some ?a"
    using d m e by (intro sweep_keeps_fresh) simp_all
  with m assms(2) show ?thesis
    by (simp add: process_def housekeeping_def Let_def flush_fields)
qed

lemma kept_prompt:
  "\<forall>fr\<in>set frs. flow_of g fr = k \<and> (\<exists>st. handle_Stats fr = Inr st)
       \<and> now_cleanup fr - now_last fr \<le> flowTimeout g \<Longrightarrow>
   distinct (map fst (seen w)) \<Longrightarrow> kept k g frs w \<and> (\<exists>w'. run g frs w = Inr w')"
proof (induction frs arbitrary: w)
  case Nil
  then show ?case by simp
next
  case (Cons fr frs)
  from Cons.prems(1) obtain st where st: "handle_Stats fr = Inr st"
    and c: "now_cleanup fr - now_last fr \<le> flowTimeout g" and k: "flow_of g fr = k" by auto
  from process_prompt [OF Cons.prems(2) st c] obtain w1
    where p: "process g fr w = Inr w1" and m: "map_of (seen w1) k \<noteq> None" using k by auto
  have "kept k g frs w1 \<and> (\<exists>w'. run g frs w1 = Inr w')"
    using Cons.prems(1) process_distinct [OF p Cons.prems(2)] by (intro Cons.IH) simp_all
  with p m show ?case by simp
qed

lemma heavy_run:
  "\<exists>w'. run S2_globals [frame_at 2000 0, frame_at 2000 1] heavy_worker = Inr w'
     \<and> seen w' = [(five_tuple tcp_layers,
          \<lparr>packets = 2000002, bytecount = 17179872884, last_time = 1, logged = True\<rparr>)]"
  by (simp add: worker_defs heavy_worker_def S2_globals_def)


lemma C6_facts:
  "\<forall>fr\<in>set C6_frames. flow_of C6_globals fr = five_tuple tcp_layers"
  "\<forall>fr\<in>set C6_frames. length (packetData fr) \<le> MAX_ETHERNET_MTU"
  "sum_list (map payload C6_frames) = 17179876836"
  "length C6_frames = 1875942"
  "kept (five_tuple tcp_layers) C6_globals C6_frames (init_worker 0)"
  "\<exists>w. run C6_globals C6_frames (init_worker 0) = Inr w"
proof -
  show 1: "\<forall>fr\<in>set C6_frames. flow_of C6_globals fr = five_tuple tcp_layers"
    by (simp add: C6_frames_def flow_of_def C6_globals_def)
  show "\<forall>fr\<in>set C6_frames. length (packetData fr) \<le> MAX_ETHERNET_MTU"
    by (simp add: C6_frames_def frame_at_def MAX_ETHERNET_MTU_def)
  have "payload \<circ> frame_at 9216 = (\<lambda>i. 9158)"
    by (simp add: fun_eq_iff payload_def frame_at_def)
  then have "map payload C6_frames = replicate 1875942 9158"
    by (simp add: C6_frames_def map_replicate_const)
  then show "sum_list (map payload C6_frames) = 17179876836"
    by (simp add: sum_list_replicate)
  show "length C6_frames = 1875942" by (simp add: C6_frames_def)
  have "\<forall>fr\<in>set C6_frames. flow_of C6_globals fr = five_tuple tcp_layers
       \<and> (\<exists>st. handle_Stats fr = Inr st)
       \<and> now_cleanup fr - now_last fr \<le> flowTimeout C6_globals"
    using 1 by (simp add: C6_frames_def frame_at_def ok_stats_def C6_globals_def)
  moreover have "distinct (map fst (seen (init_worker 0)))" by (simp add: init_worker_def)
  ultimately have "kept (five_tuple tcp_layers) C6_globals C6_frames (init_worker 0)
     \<and> (\<exists>w'. run C6_globals C6_frames (init_worker 0) = Inr w')"
    by (rule kept_prompt)
  then show "kept (five_tuple tcp_layers) C6_globals C6_frames (init_worker 0)"
    "\<exists>w. run C6_globals C6_frames (init_worker 0) = Inr w" by blast+
qed

subsection \<open>The sweep on a table with one entry per key\<close>

lemma sweep_seen_distinct:
  assumes "distinct (map fst (seen w))"
  shows "seen (sweep g now w) = filter (\<lambda>(k, flw). \<not> expired g now flw) (seen w)"
proof -
  have "\<And>k flw flw'. (k, flw) \<in> set (seen w) \<Longrightarrow> (k, flw') \<in> set (seen w) \<Longrightarrow> flw' = flw"
    using assms by (rule eq_key_imp_eq_value)
  then show ?thesis
    unfolding sweep_seen by (intro filter_cong) (auto simp: image_iff)
qed

lemma sweep_other:
  "lastcleanup (sweep g now w) = now"
  "removedFlows (sweep g now w) = removedFlows w
     + of_nat (length (filter (\<lambda>(k, flw). expired g now flw) (seen w)))"
  "mFlowSize (registry (sweep g now w)) = mFlowSize (registry w)
     + mset (map (\<lambda>(k, flw). bytecount flw) (filter (\<lambda>(k, flw). expired g now flw) (seen w)))"
  "mExpired (registry (sweep g now w)) = length (filter (\<lambda>(k, flw). expired g now flw) (seen w))"
  by (simp_all add: sweep_def Let_def)

lemma filter_expired_twice:
  "filter (\<lambda>(k, flw). expired g now flw) (filter (\<lambda>(k, flw). \<not> expired g now flw) xs) = []"
  by (induction xs) auto

lemma sweep_map_of_distinct:
  assumes "distinct (map fst (seen w))" and m: "map_of (seen w) k = Some flw"
  shows "map_of (seen (sweep g now w)) k = (if expired g now flw then None else Some flw)"
proof -
  let ?old = "filter (\<lambda>(k, flw). expired g now flw) (seen w)"
  have r: "map_of (seen (sweep g now w)) k = (if k \<in> set (map fst ?old) then None else map_of (seen w) k)"
    by (simp add: sweep_def Let_def map_of_deletes)
  have u: "flw' = flw" if "(k, flw') \<in> set (seen w)" for flw'
    using assms that by (metis map_of_is_SomeI option.inject)
  from m have i: "(k, flw) \<in> set (seen w)" by (rule map_of_SomeD)
  have "k \<in> set (map fst ?old) \<longleftrightarrow> expired g now flw"
  proof
    assume "k \<in> set (map fst ?old)"
    then obtain flw' where "(k, flw') \<in> set (seen w)" "expired g now flw'" by auto
    with u show "expired g now flw" by blast
  next
    assume "expired g now flw"
    with i have "(k, flw) \<in> set ?old" by simp
    then show "k \<in> set (map fst ?old)" by force
  qed
  with r m show ?thesis by simp
qed

lemma sweep_nothing_left:
  assumes "distinct (map fst (seen w))"
  shows "filter (\<lambda>(k, flw). expired g now flw) (seen (sweep g now w)) = []"
  unfolding sweep_seen_distinct [OF assms] by (rule filter_expired_twice)

lemma sweep_twice:
  assumes "distinct (map fst (seen w))"
  shows "seen (sweep g now (sweep g now w)) = seen (sweep g now w)"
    and "mFlowSize (registry (sweep g now (sweep g now w))) = mFlowSize (registry (sweep g now w))"
    and "removedFlows (sweep g now (sweep g now w)) = removedFlows (sweep g now w)"
    and "mExpired (registry (sweep g now (sweep g now w))) = 0"
proof -
  let ?s = "sweep g now w"
  note e = sweep_nothing_left [OF assms, of g now]
  have d: "distinct (map fst (seen ?s))" using assms by (rule sweep_distinct)
  have "seen (sweep g now ?s) = filter (\<lambda>(k, flw). \<not> expired g now flw) (seen ?s)"
    using d by (rule sweep_seen_distinct)
  also have "\<dots> = seen ?s"
    unfolding sweep_seen_distinct [OF assms] by simp
  finally show "seen (sweep g now ?s) = seen ?s" .
  show "mFlowSize (registry (sweep g now ?s)) = mFlowSize (registry ?s)"
    unfolding sweep_other(3) [of g now ?s] e by simp
  show "removedFlows (sweep g now ?s) = removedFlows ?s"
    unfolding sweep_other(2) [of g now ?s] e by simp
  show "mExpired (registry (sweep g now ?s)) = 0"
    unfolding sweep_other(4) [of g now ?s] e by simp
qed

lemma sweep_gone:
  assumes "distinct (map fst (seen w))" and "map_of (seen w) k = Some flw" and "expired g now flw"
  shows "map_of (seen (sweep g now w)) k = None"
    and "k \<notin> fst ` set (filter (\<lambda>(k, flw). expired g now' flw) (seen (sweep g now w)))"
    and "map_of (seen (sweep g now' (sweep g now w))) k = None"
proof -
  let ?s = "sweep g now w"
  show n: "map_of (seen ?s) k = None"
    using sweep_map_of_distinct [OF assms(1,2), of g now] assms(3) by simp
  then have "k \<notin> fst ` set (seen ?s)" by (simp add: map_of_eq_None_iff)
  then show "k \<notin> fst ` set (filter (\<lambda>(k, flw). expired g now' flw) (seen ?s))" by auto
  show "map_of (seen (sweep g now' ?s)) k = None"
    using sweep_map_of [of g now' ?s k] n by auto
qed

lemma idle_keys: "five_tuple tcp_layers \<noteq> zero_FiveTuple"
  by (simp add: tcp_layers_def five_tuple_def zero_FiveTuple_def zero_Flow_def)

subsection \<open>The five-tuple of a packet without a network layer\<close>

lemma no_ip_network:
  "\<forall>l\<in>set ls. \<not> is_ip l \<Longrightarrow>
   proto (foldl set_layer flow ls) = proto flow \<and> networkFlow (foldl set_layer flow ls) = networkFlow flow"
proof (induction ls arbitrary: flow)
  case Nil
  then show ?case by simp
next
  case (Cons l ls)
  then show ?case by (cases l) simp_all
qed

lemma no_transport_flow:
  "\<forall>l\<in>set ls. \<not> is_transport l \<Longrightarrow>
   transportFlow (foldl set_layer flow ls) = transportFlow flow"
proof (induction ls arbitrary: flow)
  case Nil
  then show ?case by simp
next
  case (Cons l ls)
  then show ?case by (cases l) simp_all
qed

lemma no_ip_no_transport:
  "ip_before_transport ls \<Longrightarrow> \<forall>l\<in>set ls. \<not> is_ip l \<Longrightarrow> \<forall>l\<in>set ls. \<not> is_transport l"
  by (induction ls) (auto split: if_splits)

lemma unclassified_key:
  assumes "\<forall>l\<in>set ls. \<not> is_ip l" and "ip_before_transport ls"
  shows "five_tuple ls = zero_FiveTuple"
proof -
  from no_ip_network [OF assms(1), of zero_FiveTuple]
  have "proto (five_tuple ls) = 0" "networkFlow (five_tuple ls) = zero_Flow"
    by (simp_all add: five_tuple_def zero_FiveTuple_def)
  moreover from no_transport_flow [OF no_ip_no_transport [OF assms(2,1)], of zero_FiveTuple]
  have "transportFlow (five_tuple ls) = zero_Flow"
    by (simp add: five_tuple_def zero_FiveTuple_def)
  ultimately show ?thesis by (simp add: zero_FiveTuple_def)
qed

subsection \<open>Paths and the renaming\<close>

lemma os_Rename_cases:
  "os_Rename os a b fs =
     (case Rename_err os of Some e \<Rightarrow> (Some e, fs)
      | None \<Rightarrow> (case fs a of None \<Rightarrow> (Some ErrNotExist, fs)
                  | Some c \<Rightarrow> (None, (fs(a := None))(b \<mapsto> c))))"
  by (simp add: os_Rename_def)

lemma digit_in: "digit n \<in> set ''0123456789''"
  unfolding digit_def by (rule nth_mem) simp

lemma digit_not_sep:
  "digit n \<noteq> CHR ''/''" "digit n \<noteq> CHR ''.''" "CHR ''/'' \<noteq> digit n" "CHR ''.'' \<noteq> digit n"
  using digit_in [of n] by auto

lemma split_sep_nonempty: "split_sep s \<noteq> []"
  by (induction s) (auto split: list.splits)

lemma split_plain: "CHR ''/'' \<notin> set a \<Longrightarrow> split_sep a = [a]"
  by (induction a) auto

lemma split_app: "CHR ''/'' \<notin> set a \<Longrightarrow> split_sep (a @ CHR ''/'' # b) = a # split_sep b"
  by (induction a) auto

lemma Format_pcap_parts:
  "Format_pcap t = pad4 (Year t) @ CHR ''/'' # pad2 (Month t) @ CHR ''/'' # pad2 (Day t) @ CHR ''/'' # date_name t"
  by (simp add: Format_pcap_def date_name_def)

lemma pad_plain: "CHR ''/'' \<notin> set (pad2 n)" "CHR ''/'' \<notin> set (pad4 n)"
  by (simp_all add: pad2_def pad4_def digit_not_sep)

lemma date_name_plain: "CHR ''/'' \<notin> set (date_name t)"
  by (simp add: date_name_def pad_plain)

lemma pad_elem:
  "pad2 n \<noteq> []" "pad2 n \<noteq> ''.''" "pad2 n \<noteq> ''..''"
  "pad4 n \<noteq> []" "pad4 n \<noteq> ''.''" "pad4 n \<noteq> ''..''"
  by (simp_all add: pad2_def pad4_def digit_not_sep)

lemma date_name_elem: "date_name t @ sfx \<noteq> []" "date_name t @ sfx \<noteq> ''.''" "date_name t @ sfx \<noteq> ''..''"
  by (simp_all add: date_name_def pad4_def)

lemma join_plain_root:
  assumes "root \<noteq> []" and "CHR ''/'' \<notin> set root" and "root \<noteq> ''.''" and "root \<noteq> ''..''"
    and "CHR ''/'' \<notin> set sfx"
  shows "filepath_Join root (Format_pcap t @ sfx) = root @ ''/'' @ Format_pcap t @ sfx"
proof -
  let ?Y = "pad4 (Year t)" and ?M = "pad2 (Month t)" and ?D = "pad2 (Day t)" and ?N = "date_name t @ sfx"
  have p: "root @ ''/'' @ Format_pcap t @ sfx
      = root @ CHR ''/'' # ?Y @ CHR ''/'' # ?M @ CHR ''/'' # ?D @ CHR ''/'' # ?N"
    by (simp add: Format_pcap_parts)
  have n: "CHR ''/'' \<notin> set ?N" using date_name_plain assms(5) by simp
  have s: "split_sep (root @ ''/'' @ Format_pcap t @ sfx) = [root, ?Y, ?M, ?D, ?N]"
    unfolding p by (simp only: split_app [OF assms(2)] split_app [OF pad_plain(2)]
        split_app [OF pad_plain(1)] split_plain [OF n])
  have r: "\<not> (root @ ''/'' @ Format_pcap t @ sfx \<noteq> [] \<and> hd (root @ ''/'' @ Format_pcap t @ sfx) = CHR ''/'')"
    using assms(1,2) by (cases root) auto
  have f: "foldl (clean_elem False) [] [root, ?Y, ?M, ?D, ?N] = [root, ?Y, ?M, ?D, ?N]"
    using assms(1,3,4) pad_elem date_name_elem [of t sfx] by (simp add: clean_elem_def)
  have j: "join_sep [root, ?Y, ?M, ?D, ?N] = root @ ''/'' @ Format_pcap t @ sfx"
    by (simp add: Format_pcap_parts)
  have "filepath_Clean (root @ ''/'' @ Format_pcap t @ sfx) = root @ ''/'' @ Format_pcap t @ sfx"
    unfolding filepath_Clean_def Let_def s using r f j assms(1) by simp
  with assms(1) show ?thesis by (simp add: filepath_Join_def)
qed

section \<open>The claims\<close>

text \<open>
  Claim C1, as the code has it: a capture of \<open>K\<close> packets of one flow, whose summed
  payload bytes stay below the byte cutoff and whose entry no sweep removes, sends to the
  writer exactly its first \<open>min K (packet cutoff - 1)\<close> packets: the packet that brings the
  counter up to the packet cutoff is itself dropped. All \<open>K\<close> packets are counted as
  seen, and the forwarded ones as output, in the worker's counters and metrics together.
\<close>

theorem packet_cutoff_head:
  assumes "\<forall>fr\<in>set frs. flow_of g fr = k"
    and "\<forall>fr\<in>set frs. length (packetData fr) \<le> MAX_ETHERNET_MTU"
    and "sum_list (map payload frs) < unat (flowByteCutoff g)"
    and "length frs < 2 ^ 64"
    and "kept k g frs (init_worker t)"
    and "doSniff g False False t frs False = Inr w"
  shows "writerchan w = map frame_of (take (unat (flowPacketCutoff g) - 1) frs)
       \<and> length (writerchan w) = min (length frs) (unat (flowPacketCutoff g) - 1)
       \<and> mPackets (registry w) + unat (totalPackets w) = length frs
       \<and> mOutput (registry w) + unat (outputPackets w) = min (length frs) (unat (flowPacketCutoff g) - 1)"
  using single_flow_head [OF assms(1-5)] assms(6) by (simp add: doSniff_run)

text \<open>Scenario S1 on the code: of the 200 packets, the first 99 are forwarded.\<close>

theorem packet_cutoff_head_witness:
  "\<exists>w. doSniff S1_globals False False 0 S1_frames False = Inr w
     \<and> writerchan w = map frame_of (take 99 S1_frames)
     \<and> length (writerchan w) = 99
     \<and> mPackets (registry w) + unat (totalPackets w) = 200
     \<and> mOutput (registry w) + unat (outputPackets w) = 99"
proof -
  from S1_facts(6) obtain w where w: "doSniff S1_globals False False 0 S1_frames False = Inr w"
    by (auto simp: doSniff_run)
  have "length S1_frames < 2 ^ 64" by (simp add: S1_facts(4))
  from packet_cutoff_head [OF S1_facts(1,2,3) this S1_facts(5) w] w
  show ?thesis by (simp add: S1_facts(4)) (simp add: S1_globals_def)
qed

text \<open>
  The claim as stated fails in scenario S1: with a packet cutoff of 100 the worker
  forwards 99 packets, not \<open>min 200 100\<close>.
\<close>

theorem packet_cutoff_head_counterexample:
  "map_sum id (length \<circ> writerchan) (doSniff S1_globals False False 0 S1_frames False) = Inr 99"
proof -
  from S1_facts(6) obtain w where w: "run S1_globals S1_frames (init_worker 0) = Inr w"
    by auto
  have "length S1_frames < 2 ^ 64" by (simp add: S1_facts(4))
  from single_flow_head [OF S1_facts(1,2,3) this S1_facts(5) w]
  have "length (writerchan w) = 99" by (simp add: S1_facts(4)) (simp add: S1_globals_def)
  with w show ?thesis by (simp add: doSniff_run)
qed

text \<open>
  Claim C9: every entry of the flow table has \<open>packets \<ge> 1\<close>. In every state the worker
  reaches from its start (over fewer than 2 to the 64 packets, where the 64-bit counter
  cannot wrap around) each entry's packet counter is at least 1 and at most the number
  of packets processed; a sweep and the processing of a further packet keep this, and
  processing a packet increases the counter of its flow by one.
\<close>

theorem packets_at_least_one:
  assumes "length frs + 1 < 2 ^ 64"
    and "doSniff g False False t frs False = Inr w"
  shows "(\<forall>(k, flw)\<in>set (seen w). 1 \<le> packets flw \<and> unat (packets flw) \<le> length frs)
       \<and> (\<forall>(k, flw)\<in>set (seen (sweep g now w)). 1 \<le> packets flw)
       \<and> (\<forall>(k, flw)\<in>set (seen (track g fr w)). 1 \<le> packets flw)
       \<and> unat (packets (entry (track g fr w) (flow_of g fr))) = unat (packets (entry w (flow_of g fr))) + 1"
proof -
  from assms(2) have r: "run g frs (init_worker t) = Inr w" by (simp add: doSniff_run)
  have i: "\<forall>(k, flw)\<in>set (seen (init_worker t)). 1 \<le> unat (packets flw) \<and> unat (packets flw) \<le> 0"
    by (simp add: init_worker_def)
  have "0 + length frs < 2 ^ 64" using assms(1) by simp
  from run_bounded [OF i this r]
  have b: "\<forall>(k, flw)\<in>set (seen w). 1 \<le> unat (packets flw) \<and> unat (packets flw) \<le> length frs" by simp
  then have 1: "\<forall>(k, flw)\<in>set (seen w). 1 \<le> packets flw \<and> unat (packets flw) \<le> length frs"
    by (simp add: word_one_le)
  from b sweep_set [of g now w] have 2: "\<forall>(k, flw)\<in>set (seen (sweep g now w)). 1 \<le> packets flw"
    by (fastforce simp: word_one_le)
  from track_bounded [OF b assms(1), of g fr] have 3: "\<forall>(k, flw)\<in>set (seen (track g fr w)). 1 \<le> packets flw"
    by (fastforce simp: word_one_le)
  have "unat (packets (entry w (flow_of g fr))) + 1 < 2 ^ 64"
    using entry_bounded [OF b, of "flow_of g fr"] assms(1) by simp
  then have 4: "unat (packets (entry (track g fr w) (flow_of g fr))) = unat (packets (entry w (flow_of g fr))) + 1"
    by (simp add: track_entry after_packet_simps unat_Suc_packets)
  from 1 2 3 4 show ?thesis by blast
qed

theorem packets_at_least_one_witness:
  "\<exists>w. doSniff S1_globals False False 0 [frame_at 100 0, frame_at 100 1] False = Inr w
     \<and> map fst (seen w) = [five_tuple tcp_layers]
     \<and> list_all (\<lambda>(k, flw). 1 \<le> packets flw \<and> unat (packets flw) \<le> 2) (seen w)"
proof -
  from two_frames_run obtain w
    where w: "doSniff S1_globals False False 0 [frame_at 100 0, frame_at 100 1] False = Inr w"
      and s: "map fst (seen w) = [five_tuple tcp_layers]"
    by (auto simp: doSniff_run)
  have "length [frame_at 100 0, frame_at 100 1] + 1 < (2::nat) ^ 64" by simp
  from packets_at_least_one [OF this w, where now = 0 and fr = "frame_at 100 0"] w s
  show ?thesis by (auto simp: list_all_iff)
qed

text \<open>
  Claim C10: with a packet cutoff of 1 or 0 the worker sends no packet at all to the
  writer: the updated packet counter of a flow's first packet is already 1, which is not
  below the cutoff.
\<close>

theorem packet_cutoff_one_drops_all:
  assumes "flowPacketCutoff g \<le> 1"
    and "length frs < 2 ^ 64"
    and "doSniff g False False t frs False = Inr w"
  shows "writerchan w = [] \<and> mOutput (registry w) + unat (outputPackets w) = 0"
proof -
  from assms(3) have r: "run g frs (init_worker t) = Inr w" by (simp add: doSniff_run)
  have i: "\<forall>(k, flw)\<in>set (seen (init_worker t)). 1 \<le> unat (packets flw) \<and> unat (packets flw) \<le> 0"
    by (simp add: init_worker_def)
  have "0 + length frs < 2 ^ 64" using assms(2) by simp
  from cutoff_one_run [OF assms(1) i this r] have 1: "writerchan w = []" by (simp add: init_worker_def)
  from run_counts [OF r] assms(2) 1 have "mOutput (registry w) + unat (outputPackets w) = 0"
    by (simp add: init_worker_def zero_metrics_def)
  with 1 show ?thesis by simp
qed

theorem packet_cutoff_one_drops_all_witness:
  "\<exists>w. doSniff (S1_globals\<lparr>flowPacketCutoff := 1\<rparr>) False False 0 S1_frames False = Inr w
     \<and> writerchan w = [] \<and> mOutput (registry w) + unat (outputPackets w) = 0"
proof -
  have "speedup (init_worker 0) + length S1_frames < 5000"
    by (simp add: S1_facts(4) init_worker_def)
  from short_run [OF this] obtain w
    where w: "doSniff (S1_globals\<lparr>flowPacketCutoff := 1\<rparr>) False False 0 S1_frames False = Inr w"
    by (auto simp: doSniff_run)
  have c: "flowPacketCutoff (S1_globals\<lparr>flowPacketCutoff := 1\<rparr>) \<le> 1" by simp
  have "length S1_frames < 2 ^ 64" by (simp add: S1_facts(4))
  from packet_cutoff_one_drops_all [OF c this w] w show ?thesis by blast
qed

text \<open>
  Claim C2, as the code has it: the test of line 272 reads the counters after the update
  by the packet at hand, so a packet that brings the flow's byte counter up to the byte
  cutoff or beyond is itself dropped; in particular the single packet of a new flow
  whose payload bytes reach the byte cutoff is not forwarded. In scenario S2 (10 packets
  of 2000 bytes, 1942 payload bytes each, byte cutoff 8192) the packets 1 to 4 are
  forwarded and the output holds exactly 4 frames.
\<close>

theorem byte_cutoff_post_update:
  "writerchan (track g fr w) = writerchan w @
      (if bytecount (entry (track g fr w) (flow_of g fr)) < flowByteCutoff g
          \<and> packets (entry (track g fr w) (flow_of g fr)) < flowPacketCutoff g
       then [frame_of fr] else [])
   \<and> (flowByteCutoff g \<le> bytecount (entry (track g fr w) (flow_of g fr))
        \<longrightarrow> writerchan (track g fr w) = writerchan w)
   \<and> (map_of (seen w) (flow_of g fr) = None \<and> length (packetData fr) \<le> MAX_ETHERNET_MTU
        \<and> unat (flowByteCutoff g) \<le> length (packetData fr) - 58
        \<longrightarrow> writerchan (track g fr w) = writerchan w)
   \<and> map_sum id writerchan (doSniff S2_globals False False 0 S2_frames False)
        = Inr (map frame_of (take 4 S2_frames))"
proof -
  let ?k = "flow_of g fr"
  let ?b = "bump (now_last fr) (length (packetData fr)) (entry w ?k)"
  have e: "bytecount (entry (track g fr w) ?k) = bytecount ?b" "packets (entry (track g fr w) ?k) = packets ?b"
    by (simp_all add: track_entry after_packet_simps bump_simps)
  have 1: "writerchan (track g fr w) = writerchan w @
      (if bytecount (entry (track g fr w) ?k) < flowByteCutoff g
          \<and> packets (entry (track g fr w) ?k) < flowPacketCutoff g
       then [frame_of fr] else [])"
    by (simp add: track_writerchan forwarded_def continues_def e)
  have 2: "flowByteCutoff g \<le> bytecount (entry (track g fr w) ?k) \<longrightarrow> writerchan (track g fr w) = writerchan w"
    using 1 by auto
  have 3: "map_of (seen w) ?k = None \<and> length (packetData fr) \<le> MAX_ETHERNET_MTU
        \<and> unat (flowByteCutoff g) \<le> length (packetData fr) - 58
        \<longrightarrow> writerchan (track g fr w) = writerchan w"
  proof (intro impI, elim conjE)
    assume a: "map_of (seen w) ?k = None" "length (packetData fr) \<le> MAX_ETHERNET_MTU"
      "unat (flowByteCutoff g) \<le> length (packetData fr) - 58"
    from a(1) have z: "entry w ?k = zero_trackedFlow" by (simp add: entry_def)
    have "bytecount ?b = of_nat (payload fr)"
      using a(2) by (simp add: bump_bytecount_frame z zero_trackedFlow_def)
    moreover have "payload fr < 2 ^ 64" using a(2) by (simp add: payload_def MAX_ETHERNET_MTU_def)
    ultimately have "unat (bytecount ?b) = payload fr" by (simp add: unat_of_nat)
    with a(3) have "flowByteCutoff g \<le> bytecount ?b" by (simp add: word_le_nat_alt payload_def)
    with 2 e show "writerchan (track g fr w) = writerchan w" by simp
  qed
  have 4: "map_sum id writerchan (doSniff S2_globals False False 0 S2_frames False)
        = Inr (map frame_of (take 4 S2_frames))"
    by (simp add: doSniff_run S2_run)
  from 1 2 3 4 show ?thesis by blast
qed

text \<open>A new flow whose first packet has 8942 payload bytes, with a byte cutoff of 8192.\<close>

theorem byte_cutoff_post_update_witness:
  "map_of (seen (init_worker 0)) (flow_of S2_globals (frame_at 9000 0)) = None
   \<and> length (packetData (frame_at 9000 0)) \<le> MAX_ETHERNET_MTU
   \<and> unat (flowByteCutoff S2_globals) \<le> length (packetData (frame_at 9000 0)) - 58
   \<and> flowByteCutoff S2_globals \<le> bytecount (entry (track S2_globals (frame_at 9000 0) (init_worker 0)) (flow_of S2_globals (frame_at 9000 0)))
   \<and> writerchan (track S2_globals (frame_at 9000 0) (init_worker 0)) = []"
  using byte_cutoff_post_update [of S2_globals "frame_at 9000 0" "init_worker 0"]
  by (simp add: track_entry entry_def after_packet_def flow_of_def worker_defs S2_globals_def
      MAX_ETHERNET_MTU_def)

text \<open>
  The claim as stated fails: in scenario S2 the worker forwards 4 packets, not 5 (the
  fifth, which brings the counter to 9710, is dropped), and a flow whose single packet
  exceeds the byte cutoff is not recorded.
\<close>

theorem byte_cutoff_post_update_counterexample:
  "map_sum id (length \<circ> writerchan) (doSniff S2_globals False False 0 S2_frames False) = Inr 4
   \<and> map_sum id writerchan (doSniff S2_globals False False 0 [frame_at 9000 0] False) = Inr []"
proof -
  from S2_run have "map_sum id (length \<circ> writerchan) (run S2_globals S2_frames (init_worker 0)) = Inr 4"
    by (cases "run S2_globals S2_frames (init_worker 0)") (simp_all add: S2_frames_def)
  with jumbo_run show ?thesis by (simp add: doSniff_run)
qed

text \<open>
  Claim C5: processing a packet increases the byte counter of its flow by
  \<open>max 0 (length - 58)\<close>, in 64-bit arithmetic: nothing for a packet of at most 58 bytes,
  the length minus 58 otherwise. Over any capture during which the entry of a flow is not
  removed, its counter grows by the sum of these amounts over the packets of the flow.
  Packets are as long as the handle's snap length (\<open>MAX_ETHERNET_MTU\<close>) at most.
\<close>

theorem bytecount_payload_sum:
  assumes "length (packetData fr) \<le> MAX_ETHERNET_MTU"
    and "\<forall>fr\<in>set frs. length (packetData fr) \<le> MAX_ETHERNET_MTU"
    and "kept k g frs w"
    and "run g frs w = Inr w'"
  shows "int (payload fr) = max 0 (int (length (packetData fr)) - 58)
   \<and> bytecount (entry (track g fr w) (flow_of g fr))
       = bytecount (entry w (flow_of g fr)) + of_nat (payload fr)
   \<and> (length (packetData fr) \<le> 58 \<longrightarrow>
        bytecount (entry (track g fr w) (flow_of g fr)) = bytecount (entry w (flow_of g fr)))
   \<and> (unat (bytecount (entry w (flow_of g fr))) + payload fr < 2 ^ 64 \<longrightarrow>
        unat (bytecount (entry (track g fr w) (flow_of g fr)))
          = unat (bytecount (entry w (flow_of g fr))) + payload fr)
   \<and> bytecount (entry w' k)
       = bytecount (entry w k) + of_nat (sum_list (map payload (flow_frames g k frs)))"
proof -
  have 1: "int (payload fr) = max 0 (int (length (packetData fr)) - 58)"
    by (simp add: payload_def)
  have 2: "bytecount (entry (track g fr w) (flow_of g fr))
       = bytecount (entry w (flow_of g fr)) + of_nat (payload fr)"
    using assms(1) by (simp add: track_entry after_packet_bytecount)
  have 3: "length (packetData fr) \<le> 58 \<longrightarrow>
        bytecount (entry (track g fr w) (flow_of g fr)) = bytecount (entry w (flow_of g fr))"
    using 2 by (simp add: payload_def)
  have 4: "unat (bytecount (entry w (flow_of g fr))) + payload fr < 2 ^ 64 \<longrightarrow>
        unat (bytecount (entry (track g fr w) (flow_of g fr)))
          = unat (bytecount (entry w (flow_of g fr))) + payload fr"
    using 2 by (simp add: unat_add_bytes)
  have "\<forall>fr\<in>set (flow_frames g k frs). length (packetData fr) \<le> MAX_ETHERNET_MTU"
    using assms(2) by (simp add: flow_frames_def)
  from flow_state_bytecount [OF this] run_flow [OF assms(3,4)]
  have 5: "bytecount (entry w' k)
       = bytecount (entry w k) + of_nat (sum_list (map payload (flow_frames g k frs)))"
    by (simp add: flow_frames_def)
  from 1 2 3 4 5 show ?thesis by blast
qed

theorem bytecount_payload_sum_witness:
  "\<exists>w'. length (packetData (frame_at 2000 0)) \<le> MAX_ETHERNET_MTU
     \<and> kept (five_tuple tcp_layers) S2_globals (take 3 S2_frames) (init_worker 0)
     \<and> run S2_globals (take 3 S2_frames) (init_worker 0) = Inr w'
     \<and> bytecount (entry (track S2_globals (frame_at 2000 0) (init_worker 0)) (five_tuple tcp_layers)) = 1942
     \<and> bytecount (entry w' (five_tuple tcp_layers)) = 5826"
proof -
  have "speedup (init_worker 0) + length (take 3 S2_frames) < 5000"
    by (simp add: init_worker_def S2_frames_def)
  from short_run [OF this] obtain w'
    where k: "kept (five_tuple tcp_layers) S2_globals (take 3 S2_frames) (init_worker 0)"
      and r: "run S2_globals (take 3 S2_frames) (init_worker 0) = Inr w'" by blast
  have l: "length (packetData (frame_at 2000 0)) \<le> MAX_ETHERNET_MTU"
    by (simp add: frame_at_def MAX_ETHERNET_MTU_def)
  have m: "\<forall>fr\<in>set (take 3 S2_frames). length (packetData fr) \<le> MAX_ETHERNET_MTU"
    by (simp add: S2_frames_def frame_at_def MAX_ETHERNET_MTU_def)
  have z: "entry (init_worker 0) k = zero_trackedFlow" for k
    by (simp add: entry_def init_worker_def)
  from bytecount_payload_sum [OF l m k r] k r l show ?thesis
    by (simp add: S2_flow flow_frames_def z zero_trackedFlow_def)
       (simp add: S2_frames_def payload_def frame_at_def)
qed

text \<open>
  Claim C3: once the counters of a flow, as a processed packet left them, have reached
  the packet cutoff or the byte cutoff, then over any further capture during which no
  sweep removes the entry (and the 64-bit counters do not wrap around) no packet of that
  five-tuple is sent to the writer, the flow stays cut off, the entry stays in the table,
  and its time stamp is the clock reading of the flow's latest packet. An entry leaves
  the table only in a housekeeping step whose sweep finds it expired.
\<close>

theorem cutoff_reached_stays_silent:
  assumes "flowPacketCutoff g \<le> packets (entry w k) \<or> flowByteCutoff g \<le> bytecount (entry w k)"
    and "\<forall>fr\<in>set frs. length (packetData fr) \<le> MAX_ETHERNET_MTU"
    and "unat (packets (entry w k)) + length (flow_frames g k frs) < 2 ^ 64"
    and "unat (bytecount (entry w k)) + sum_list (map payload (flow_frames g k frs)) < 2 ^ 64"
    and "kept k g frs w"
    and "run g frs w = Inr w'"
  shows "filter (\<lambda>p. pkey g p = k) (writerchan w') = filter (\<lambda>p. pkey g p = k) (writerchan w)
   \<and> (flowPacketCutoff g \<le> packets (entry w' k) \<or> flowByteCutoff g \<le> bytecount (entry w' k))
   \<and> (map_of (seen w) k \<noteq> None \<longrightarrow> map_of (seen w') k \<noteq> None)
   \<and> (flow_frames g k frs \<noteq> [] \<longrightarrow>
        map_of (seen w') k \<noteq> None \<and> last_time (entry w' k) = now_last (last (flow_frames g k frs)))
   \<and> (process g fr w = Inr w1 \<and> map_of (seen w) k \<noteq> None \<and> map_of (seen w1) k = None \<longrightarrow>
        speedup w + 1 = 5000 \<and> packetTimeInterval g < now_since fr - lastcleanup w
        \<and> (\<exists>flw. (k, flw) \<in> set (seen (track g fr w)) \<and> expired g (now_cleanup fr) flw))"
proof -
  let ?fs = "flow_frames g k frs"
  note rf = run_flow [OF assms(5,6), folded flow_frames_def]
  have c: "\<not> continues g (entry w k)" using assms(1) by (simp add: not_continues)
  have m: "\<forall>fr\<in>set ?fs. length (packetData fr) \<le> MAX_ETHERNET_MTU"
    using assms(2) by (simp add: flow_frames_def)
  from flow_cut [OF c m assms(3,4)] have fc: "flow_out g (entry w k) ?fs = []"
    "\<not> continues g (flow_state g (entry w k) ?fs)" by simp_all
  from rf fc(1) have 1: "filter (\<lambda>p. pkey g p = k) (writerchan w') = filter (\<lambda>p. pkey g p = k) (writerchan w)"
    by simp
  from rf fc(2) have 2: "flowPacketCutoff g \<le> packets (entry w' k) \<or> flowByteCutoff g \<le> bytecount (entry w' k)"
    by (simp add: not_continues)
  have 3: "map_of (seen w) k \<noteq> None \<longrightarrow> map_of (seen w') k \<noteq> None"
    using kept_present [OF assms(5,6)] by blast
  have 4: "?fs \<noteq> [] \<longrightarrow> map_of (seen w') k \<noteq> None \<and> last_time (entry w' k) = now_last (last ?fs)"
  proof
    assume n: "?fs \<noteq> []"
    then have "\<exists>fr\<in>set frs. flow_of g fr = k"
      by (auto simp: flow_frames_def filter_empty_conv)
    with kept_present [OF assms(5,6)] have "map_of (seen w') k \<noteq> None" by blast
    moreover from rf n have "last_time (entry w' k) = now_last (last ?fs)"
      by (simp add: flow_state_last_time)
    ultimately show "map_of (seen w') k \<noteq> None \<and> last_time (entry w' k) = now_last (last ?fs)" by simp
  qed
  have 5: "process g fr w = Inr w1 \<and> map_of (seen w) k \<noteq> None \<and> map_of (seen w1) k = None \<longrightarrow>
        speedup w + 1 = 5000 \<and> packetTimeInterval g < now_since fr - lastcleanup w
        \<and> (\<exists>flw. (k, flw) \<in> set (seen (track g fr w)) \<and> expired g (now_cleanup fr) flw)"
  proof (intro impI, elim conjE)
    assume a: "process g fr w = Inr w1" "map_of (seen w) k \<noteq> None" "map_of (seen w1) k = None"
    from a(2) have "map_of (seen (track g fr w)) k \<noteq> None" by (auto simp: track_seen)
    from process_removes_expired [OF a(1) this a(3)]
    show "speedup w + 1 = 5000 \<and> packetTimeInterval g < now_since fr - lastcleanup w
        \<and> (\<exists>flw. (k, flw) \<in> set (seen (track g fr w)) \<and> expired g (now_cleanup fr) flw)" .
  qed
  from 1 2 3 4 5 show ?thesis by blast
qed

text \<open>Scenario S2 after its fifth packet, which brought the flow to 9710 bytes.\<close>

theorem cutoff_reached_stays_silent_witness:
  "\<exists>w w'. run S2_globals (take 5 S2_frames) (init_worker 0) = Inr w
     \<and> flowByteCutoff S2_globals \<le> bytecount (entry w (five_tuple tcp_layers))
     \<and> kept (five_tuple tcp_layers) S2_globals (drop 5 S2_frames) w
     \<and> run S2_globals (drop 5 S2_frames) w = Inr w'
     \<and> writerchan w' = writerchan w
     \<and> map_of (seen w') (five_tuple tcp_layers) \<noteq> None
     \<and> last_time (entry w' (five_tuple tcp_layers)) = 9"
proof -
  let ?k = "five_tuple tcp_layers"
  from S2_after5 obtain w where r: "run S2_globals (take 5 S2_frames) (init_worker 0) = Inr w"
    and s: "seen w = [(?k, \<lparr>packets = 5, bytecount = 9710, last_time = 4, logged = False\<rparr>)]"
    and sp: "speedup w = 5" and wc: "writerchan w = map frame_of (take 4 S2_frames)"
    by blast
  have e: "entry w ?k = \<lparr>packets = 5, bytecount = 9710, last_time = 4, logged = False\<rparr>"
    by (simp add: entry_def s)
  have "speedup w + length (drop 5 S2_frames) < 5000" by (simp add: sp S2_frames_def)
  from short_run [OF this] obtain w'
    where k: "kept ?k S2_globals (drop 5 S2_frames) w"
      and r': "run S2_globals (drop 5 S2_frames) w = Inr w'" by blast
  have f: "flow_frames S2_globals ?k frs = frs" for frs
    by (simp add: flow_frames_def S2_flow)
  have c: "flowPacketCutoff S2_globals \<le> packets (entry w ?k) \<or> flowByteCutoff S2_globals \<le> bytecount (entry w ?k)"
    by (simp add: e S2_globals_def)
  have m: "\<forall>fr\<in>set (drop 5 S2_frames). length (packetData fr) \<le> MAX_ETHERNET_MTU"
    by (simp add: S2_frames_def frame_at_def MAX_ETHERNET_MTU_def)
  have p: "unat (packets (entry w ?k)) + length (flow_frames S2_globals ?k (drop 5 S2_frames)) < 2 ^ 64"
    by (simp add: e f S2_frames_def)
  have b: "unat (bytecount (entry w ?k)) + sum_list (map payload (flow_frames S2_globals ?k (drop 5 S2_frames))) < 2 ^ 64"
    by (simp add: e f S2_frames_def payload_def frame_at_def)
  have fw: "filter (\<lambda>p. pkey S2_globals p = ?k) ps = ps" for ps
    by (simp add: pkey_def S2_globals_def)
  have l: "now_last (last (drop 5 S2_frames)) = 9" by (simp add: S2_frames_def frame_at_def)
  have n: "drop 5 S2_frames \<noteq> []" by (simp add: S2_frames_def)
  have n': "flow_frames S2_globals ?k (drop 5 S2_frames) \<noteq> []" unfolding f by (fact n)
  note t = cutoff_reached_stays_silent [OF c m p b k r', where fr = "frame_at 2000 0" and ?w1.0 = w]
  from t have "filter (\<lambda>p. pkey S2_globals p = ?k) (writerchan w') = filter (\<lambda>p. pkey S2_globals p = ?k) (writerchan w)"
    by blast
  then have 1: "writerchan w' = writerchan w" unfolding fw .
  from t n' have "map_of (seen w') ?k \<noteq> None
     \<and> last_time (entry w' ?k) = now_last (last (flow_frames S2_globals ?k (drop 5 S2_frames)))"
    by blast
  then have 2: "map_of (seen w') ?k \<noteq> None \<and> last_time (entry w' ?k) = 9" unfolding f l .
  have 3: "flowByteCutoff S2_globals \<le> bytecount (entry w ?k)" by (simp add: e S2_globals_def)
  from r 3 k r' 1 2 show ?thesis by blast
qed

text \<open>
  Claim C6, as the code has it: for each entry of the table at most one large-flow
  diagnostic is logged while the entry lives. It is logged by the first packet of the
  flow that is not forwarded while the updated byte counter exceeds 16 GiB and the flag
  is unset; that sets the flag, which is never reset, and no later packet logs again.
  When the byte cutoff is at most 16 GiB + 1 (and the counter does not wrap around) the
  flag is set exactly when the byte counter exceeds 16 GiB, so such a flow is reported
  exactly once. With a larger byte cutoff a flow that is still forwarded is not reported.
\<close>

theorem large_flow_logged_once:
  assumes "\<forall>fr\<in>set frs. length (packetData fr) \<le> MAX_ETHERNET_MTU"
    and "kept k g frs w"
    and "run g frs w = Inr w'"
  shows "large_flow_lines k w' = large_flow_lines k w
           + (if logged (entry w' k) \<and> \<not> logged (entry w k) then 1 else 0)
   \<and> (logged (entry w k) \<longrightarrow> logged (entry w' k))
   \<and> (unat (flowByteCutoff g) \<le> unat LARGE_FLOW_SIZE + 1
        \<and> unat (bytecount (entry w k)) + sum_list (map payload (flow_frames g k frs)) < 2 ^ 64
        \<and> (logged (entry w k) \<longleftrightarrow> LARGE_FLOW_SIZE < bytecount (entry w k))
      \<longrightarrow> (logged (entry w' k) \<longleftrightarrow> LARGE_FLOW_SIZE < bytecount (entry w' k)))
   \<and> logs (track g fr w) = logs w @
        (if \<not> forwarded g fr w \<and> \<not> logged (entry w (flow_of g fr))
            \<and> LARGE_FLOW_SIZE < bytecount (entry (track g fr w) (flow_of g fr))
         then [LargeFlow (flow_of g fr)] else [])"
proof -
  let ?fs = "flow_frames g k frs"
  note rf = run_flow [OF assms(2,3), folded flow_frames_def]
  have m: "\<forall>fr\<in>set ?fs. length (packetData fr) \<le> MAX_ETHERNET_MTU"
    using assms(1) by (simp add: flow_frames_def)
  from rf have 1: "large_flow_lines k w' = large_flow_lines k w
           + (if logged (entry w' k) \<and> \<not> logged (entry w k) then 1 else 0)"
    by (simp add: large_flow_lines_def flow_logs_flag)
  from rf have 2: "logged (entry w k) \<longrightarrow> logged (entry w' k)"
    by (simp add: flow_state_logged_mono)
  have 3: "unat (flowByteCutoff g) \<le> unat LARGE_FLOW_SIZE + 1
        \<and> unat (bytecount (entry w k)) + sum_list (map payload ?fs) < 2 ^ 64
        \<and> (logged (entry w k) \<longleftrightarrow> LARGE_FLOW_SIZE < bytecount (entry w k))
      \<longrightarrow> (logged (entry w' k) \<longleftrightarrow> LARGE_FLOW_SIZE < bytecount (entry w' k))"
  proof (intro impI, elim conjE)
    assume a: "unat (flowByteCutoff g) \<le> unat LARGE_FLOW_SIZE + 1"
      "unat (bytecount (entry w k)) + sum_list (map payload ?fs) < 2 ^ 64"
      "logged (entry w k) \<longleftrightarrow> LARGE_FLOW_SIZE < bytecount (entry w k)"
    from flow_large_exact [OF a(1) m a(2,3)] rf
    show "logged (entry w' k) \<longleftrightarrow> LARGE_FLOW_SIZE < bytecount (entry w' k)" by simp
  qed
  have 4: "logs (track g fr w) = logs w @
        (if \<not> forwarded g fr w \<and> \<not> logged (entry w (flow_of g fr))
            \<and> LARGE_FLOW_SIZE < bytecount (entry (track g fr w) (flow_of g fr))
         then [LargeFlow (flow_of g fr)] else [])"
    by (simp add: track_logs track_entry large_unlogged_def bump_simps after_packet_simps)
  from 1 2 3 4 show ?thesis by blast
qed

text \<open>A flow at 17179869000 bytes receives two packets of 2000 bytes: one diagnostic.\<close>

theorem large_flow_logged_once_witness:
  "\<exists>w'. kept (five_tuple tcp_layers) S2_globals [frame_at 2000 0, frame_at 2000 1] heavy_worker
     \<and> run S2_globals [frame_at 2000 0, frame_at 2000 1] heavy_worker = Inr w'
     \<and> unat (flowByteCutoff S2_globals) \<le> unat LARGE_FLOW_SIZE + 1
     \<and> \<not> logged (entry heavy_worker (five_tuple tcp_layers))
     \<and> logged (entry w' (five_tuple tcp_layers))
     \<and> LARGE_FLOW_SIZE < bytecount (entry w' (five_tuple tcp_layers))
     \<and> large_flow_lines (five_tuple tcp_layers) heavy_worker = 0
     \<and> large_flow_lines (five_tuple tcp_layers) w' = 1"
proof -
  let ?k = "five_tuple tcp_layers"
  let ?frs = "[frame_at 2000 0, frame_at 2000 1]"
  from heavy_run obtain w' where r: "run S2_globals ?frs heavy_worker = Inr w'"
    and s: "seen w' = [(?k, \<lparr>packets = 2000002, bytecount = 17179872884, last_time = 1, logged = True\<rparr>)]"
    by blast
  have "speedup heavy_worker + length ?frs < 5000" by (simp add: heavy_worker_def init_worker_def)
  from short_run [OF this] have k: "kept ?k S2_globals ?frs heavy_worker" by blast
  have m: "\<forall>fr\<in>set ?frs. length (packetData fr) \<le> MAX_ETHERNET_MTU"
    by (simp add: frame_at_def MAX_ETHERNET_MTU_def)
  have e: "entry w' ?k = \<lparr>packets = 2000002, bytecount = 17179872884, last_time = 1, logged = True\<rparr>"
    by (simp add: entry_def s)
  have h: "\<not> logged (entry heavy_worker ?k)" "large_flow_lines ?k heavy_worker = 0"
    by (simp_all add: entry_def heavy_worker_def large_flow_lines_def init_worker_def)
  have c: "unat (flowByteCutoff S2_globals) \<le> unat LARGE_FLOW_SIZE + 1"
    by (simp add: S2_globals_def LARGE_FLOW_SIZE_def)
  have l: "LARGE_FLOW_SIZE < bytecount (entry w' ?k)" by (simp add: e LARGE_FLOW_SIZE_def)
  from large_flow_logged_once [OF m k r, where fr = "frame_at 2000 0"] h e
  have "large_flow_lines ?k w' = 1" by simp
  with k r c h l e show ?thesis by simp
qed

text \<open>
  The claim as stated fails: with cutoffs above 16 GiB, a flow whose byte counter
  exceeds 16 GiB while every packet is still forwarded gets no diagnostic at all.
\<close>

theorem large_flow_logged_once_counterexample:
  "map_sum id (flow_bytes (five_tuple tcp_layers))
     (doSniff C6_globals False False 0 C6_frames False) = Inr 17179876836
   \<and> LARGE_FLOW_SIZE < 17179876836
   \<and> map_sum id (large_flow_lines (five_tuple tcp_layers))
     (doSniff C6_globals False False 0 C6_frames False) = Inr 0"
proof -
  let ?k = "five_tuple tcp_layers"
  from C6_facts(6) obtain w where r: "run C6_globals C6_frames (init_worker 0) = Inr w" by blast
  have f: "filter (\<lambda>fr. flow_of C6_globals fr = ?k) C6_frames = C6_frames"
    using C6_facts(1) by simp
  have z: "entry (init_worker 0) ?k = zero_trackedFlow" by (simp add: entry_def init_worker_def)
  note rf = run_flow [OF C6_facts(5) r, unfolded f z]
  have "logged (flow_state C6_globals zero_trackedFlow C6_frames) = logged zero_trackedFlow"
    using C6_facts(2)
    by (rule flow_continues_unlogged)
       (simp_all add: C6_facts(3,4) zero_trackedFlow_def C6_globals_def)
  then have "flow_logs C6_globals zero_trackedFlow C6_frames = 0"
    by (simp add: flow_logs_flag zero_trackedFlow_def)
  with rf have 1: "large_flow_lines ?k w = 0"
    by (simp add: large_flow_lines_def init_worker_def)
  have "bytecount (flow_state C6_globals zero_trackedFlow C6_frames) = 17179876836"
    using flow_state_bytecount [OF C6_facts(2), of C6_globals zero_trackedFlow]
    by (simp add: C6_facts(3) zero_trackedFlow_def)
  with rf have 2: "flow_bytes ?k w = 17179876836" by (simp add: flow_bytes_def)
  have 3: "LARGE_FLOW_SIZE < 17179876836" by (simp add: LARGE_FLOW_SIZE_def)
  from r 1 2 3 show ?thesis by (simp add: doSniff_run)
qed

text \<open>
  Claim C4: on a table with one entry per key, the sweep at time \<open>now\<close> removes exactly
  the entries with \<open>now - last > flowTimeout\<close> and keeps the others unchanged, adds the
  byte count of each removed entry to the flow-size histogram and their number to
  \<open>removedFlows\<close>. A second sweep at the same time changes neither the table nor the
  histogram nor the count, and whenever it runs, a flow that the first sweep removed is
  absent from the table and is not among the entries the second sweep removes.
\<close>

theorem sweep_removes_expired_once:
  assumes "distinct (map fst (seen w))"
  shows "seen (sweep g now w) = filter (\<lambda>(k, flw). \<not> now - last_time flw > flowTimeout g) (seen w)
   \<and> (\<forall>k flw. map_of (seen w) k = Some flw \<longrightarrow>
         map_of (seen (sweep g now w)) k = (if now - last_time flw > flowTimeout g then None else Some flw))
   \<and> mFlowSize (registry (sweep g now w)) = mFlowSize (registry w)
        + mset (map (\<lambda>(k, flw). bytecount flw)
            (filter (\<lambda>(k, flw). now - last_time flw > flowTimeout g) (seen w)))
   \<and> removedFlows (sweep g now w) = removedFlows w
        + of_nat (length (filter (\<lambda>(k, flw). now - last_time flw > flowTimeout g) (seen w)))
   \<and> seen (sweep g now (sweep g now w)) = seen (sweep g now w)
   \<and> mFlowSize (registry (sweep g now (sweep g now w))) = mFlowSize (registry (sweep g now w))
   \<and> removedFlows (sweep g now (sweep g now w)) = removedFlows (sweep g now w)
   \<and> mExpired (registry (sweep g now (sweep g now w))) = 0
   \<and> (\<forall>k flw now'. map_of (seen w) k = Some flw \<and> now - last_time flw > flowTimeout g \<longrightarrow>
         map_of (seen (sweep g now w)) k = None
         \<and> k \<notin> fst ` set (filter (\<lambda>(k, flw). now' - last_time flw > flowTimeout g) (seen (sweep g now w)))
         \<and> map_of (seen (sweep g now' (sweep g now w))) k = None)"
proof -
  have 1: "seen (sweep g now w) = filter (\<lambda>(k, flw). \<not> now - last_time flw > flowTimeout g) (seen w)"
    using sweep_seen_distinct [OF assms, of g now] unfolding expired_def .
  have 2: "\<forall>k flw. map_of (seen w) k = Some flw \<longrightarrow>
         map_of (seen (sweep g now w)) k = (if now - last_time flw > flowTimeout g then None else Some flw)"
    using sweep_map_of_distinct [OF assms, where g = g and now = now] unfolding expired_def by blast
  have 3: "mFlowSize (registry (sweep g now w)) = mFlowSize (registry w)
        + mset (map (\<lambda>(k, flw). bytecount flw)
            (filter (\<lambda>(k, flw). now - last_time flw > flowTimeout g) (seen w)))"
    using sweep_other(3) [of g now w] unfolding expired_def .
  have 4: "removedFlows (sweep g now w) = removedFlows w
        + of_nat (length (filter (\<lambda>(k, flw). now - last_time flw > flowTimeout g) (seen w)))"
    using sweep_other(2) [of g now w] unfolding expired_def .
  note 5 = sweep_twice [OF assms, of g now]
  have 9: "\<forall>k flw now'. map_of (seen w) k = Some flw \<and> now - last_time flw > flowTimeout g \<longrightarrow>
         map_of (seen (sweep g now w)) k = None
         \<and> k \<notin> fst ` set (filter (\<lambda>(k, flw). now' - last_time flw > flowTimeout g) (seen (sweep g now w)))
         \<and> map_of (seen (sweep g now' (sweep g now w))) k = None"
  proof (intro allI impI, elim conjE)
    fix k flw now' assume m: "map_of (seen w) k = Some flw" and x: "now - last_time flw > flowTimeout g"
    from x have x': "expired g now flw" by (simp add: expired_def)
    note g = sweep_gone(1) [OF assms m x'] sweep_gone(2) [OF assms m x', of now']
      sweep_gone(3) [OF assms m x', of now']
    from g(2) have e: "k \<notin> fst ` set (filter (\<lambda>(k, flw). now' - last_time flw > flowTimeout g) (seen (sweep g now w)))"
      unfolding expired_def .
    from g(1) e g(3) show "map_of (seen (sweep g now w)) k = None
         \<and> k \<notin> fst ` set (filter (\<lambda>(k, flw). now' - last_time flw > flowTimeout g) (seen (sweep g now w)))
         \<and> map_of (seen (sweep g now' (sweep g now w))) k = None" by (intro conjI)
  qed
  show ?thesis
    by (intro conjI) (rule 1 2 3 4 5 9)+
qed

text \<open>With a timeout of 5 seconds, the sweep at second 8 removes the flow last seen at time 1000.\<close>

theorem sweep_removes_expired_once_witness:
  "distinct (map fst (seen idle_worker))
   \<and> seen (sweep S1_globals 8000000000 idle_worker) =
       [(zero_FiveTuple, \<lparr>packets = 3, bytecount = 0, last_time = 7000000000, logged = False\<rparr>)]
   \<and> mFlowSize (registry (sweep S1_globals 8000000000 idle_worker)) = {#420#}
   \<and> map_of (seen idle_worker) (five_tuple tcp_layers) \<noteq> None
   \<and> map_of (seen (sweep S1_globals 8000000000 idle_worker)) (five_tuple tcp_layers) = None
   \<and> seen (sweep S1_globals 8000000000 (sweep S1_globals 8000000000 idle_worker))
       = seen (sweep S1_globals 8000000000 idle_worker)
   \<and> mFlowSize (registry (sweep S1_globals 8000000000 (sweep S1_globals 8000000000 idle_worker))) = {#420#}"
proof -
  let ?s = "sweep S1_globals 8000000000 idle_worker"
  have d: "distinct (map fst (seen idle_worker))"
    by (simp add: idle_worker_def init_worker_def idle_keys)
  have m: "map_of (seen idle_worker) (five_tuple tcp_layers) \<noteq> None"
    by (simp add: idle_worker_def init_worker_def)
  note t = sweep_removes_expired_once [OF d, of S1_globals 8000000000]
  from t have "seen ?s = filter (\<lambda>(k, flw). \<not> 8000000000 - last_time flw > flowTimeout S1_globals) (seen idle_worker)"
    by (rule conjunct1)
  then have a: "seen ?s = [(zero_FiveTuple, \<lparr>packets = 3, bytecount = 0, last_time = 7000000000, logged = False\<rparr>)]"
    by (simp add: idle_worker_def init_worker_def S1_globals_def)
  from t [THEN conjunct2, THEN conjunct2, THEN conjunct1]
  have "mFlowSize (registry ?s) = mFlowSize (registry idle_worker)
        + mset (map (\<lambda>(k, flw). bytecount flw)
            (filter (\<lambda>(k, flw). 8000000000 - last_time flw > flowTimeout S1_globals) (seen idle_worker)))"
    .
  then have b: "mFlowSize (registry ?s) = {#420#}"
    by (simp add: idle_worker_def init_worker_def zero_metrics_def S1_globals_def)
  have c: "map_of (seen ?s) (five_tuple tcp_layers) = None"
    by (simp add: a idle_keys)
  from t [THEN conjunct2, THEN conjunct2, THEN conjunct2, THEN conjunct2, THEN conjunct1]
  have e: "seen (sweep S1_globals 8000000000 ?s) = seen ?s" .
  from t [THEN conjunct2, THEN conjunct2, THEN conjunct2, THEN conjunct2, THEN conjunct2, THEN conjunct1]
  have "mFlowSize (registry (sweep S1_globals 8000000000 ?s)) = mFlowSize (registry ?s)" .
  with b have f: "mFlowSize (registry (sweep S1_globals 8000000000 ?s)) = {#420#}" by simp
  show ?thesis by (intro conjI) (rule d a b m c e f)+
qed

text \<open>
  Claim C8: for a packet in which no IPv4 and no IPv6 layer is decoded, the protocol
  and the network flow of the five-tuple keep their zero value. As the parser decodes a
  transport layer only after a network layer, the whole key is then the zero five-tuple:
  all such packets are looked up under this one key, the packet is counted, the entry of
  that key is updated (its packet counter grows by one) and no other entry changes.
\<close>

theorem unclassified_frames_share_entry:
  assumes "\<forall>l\<in>set (DecodeLayers g (packetData fr)). \<not> is_ip l"
  shows "proto (flow_of g fr) = 0 \<and> networkFlow (flow_of g fr) = zero_Flow
   \<and> (ip_before_transport (DecodeLayers g (packetData fr)) \<longrightarrow>
        flow_of g fr = zero_FiveTuple
        \<and> map_of (seen (track g fr w)) zero_FiveTuple
             = Some (after_packet g (now_last fr) (length (packetData fr)) (entry w zero_FiveTuple))
        \<and> packets (entry (track g fr w) zero_FiveTuple) = packets (entry w zero_FiveTuple) + 1
        \<and> (\<forall>k. k \<noteq> zero_FiveTuple \<longrightarrow> map_of (seen (track g fr w)) k = map_of (seen w) k)
        \<and> totalPackets (track g fr w) = totalPackets w + 1
        \<and> ((\<forall>l\<in>set (DecodeLayers g (packetData fr')). \<not> is_ip l)
             \<and> ip_before_transport (DecodeLayers g (packetData fr'))
            \<longrightarrow> flow_of g fr' = flow_of g fr))"
proof -
  from no_ip_network [OF assms, of zero_FiveTuple]
  have 1: "proto (flow_of g fr) = 0 \<and> networkFlow (flow_of g fr) = zero_Flow"
    by (simp add: flow_of_def five_tuple_def zero_FiveTuple_def)
  have 2: "flow_of g fr = zero_FiveTuple
        \<and> map_of (seen (track g fr w)) zero_FiveTuple
             = Some (after_packet g (now_last fr) (length (packetData fr)) (entry w zero_FiveTuple))
        \<and> packets (entry (track g fr w) zero_FiveTuple) = packets (entry w zero_FiveTuple) + 1
        \<and> (\<forall>k. k \<noteq> zero_FiveTuple \<longrightarrow> map_of (seen (track g fr w)) k = map_of (seen w) k)
        \<and> totalPackets (track g fr w) = totalPackets w + 1
        \<and> ((\<forall>l\<in>set (DecodeLayers g (packetData fr')). \<not> is_ip l)
             \<and> ip_before_transport (DecodeLayers g (packetData fr'))
            \<longrightarrow> flow_of g fr' = flow_of g fr)"
    if c: "ip_before_transport (DecodeLayers g (packetData fr))"
  proof -
    from unclassified_key [OF assms c] have k: "flow_of g fr = zero_FiveTuple"
      by (simp add: flow_of_def)
    have a: "map_of (seen (track g fr w)) zero_FiveTuple
             = Some (after_packet g (now_last fr) (length (packetData fr)) (entry w zero_FiveTuple))"
      by (simp add: track_seen k)
    have b: "packets (entry (track g fr w) zero_FiveTuple) = packets (entry w zero_FiveTuple) + 1"
      by (simp add: track_entry k after_packet_simps)
    have d: "\<forall>k. k \<noteq> zero_FiveTuple \<longrightarrow> map_of (seen (track g fr w)) k = map_of (seen w) k"
      by (simp add: track_seen k)
    have e: "totalPackets (track g fr w) = totalPackets w + 1" by (rule track_totalPackets)
    have f: "(\<forall>l\<in>set (DecodeLayers g (packetData fr')). \<not> is_ip l)
             \<and> ip_before_transport (DecodeLayers g (packetData fr'))
            \<longrightarrow> flow_of g fr' = flow_of g fr"
      using unclassified_key [of "DecodeLayers g (packetData fr')"] k by (simp add: flow_of_def)
    show ?thesis by (intro conjI) (rule k a b d e f)+
  qed
  from 1 2 show ?thesis by (intro conjI impI) simp_all
qed

theorem unclassified_frames_share_entry_witness:
  "list_all (\<lambda>l. \<not> is_ip l) (DecodeLayers arp_globals (packetData (frame_at 60 0)))
   \<and> ip_before_transport (DecodeLayers arp_globals (packetData (frame_at 60 0)))
   \<and> flow_of arp_globals (frame_at 60 0) = zero_FiveTuple
   \<and> flow_of arp_globals (frame_at 42 1) = flow_of arp_globals (frame_at 60 0)
   \<and> packets (entry (track arp_globals (frame_at 60 0) (init_worker 0)) zero_FiveTuple) = 1"
proof -
  have h: "\<forall>l\<in>set (DecodeLayers arp_globals (packetData (frame_at 60 0))). \<not> is_ip l"
    and h': "\<forall>l\<in>set (DecodeLayers arp_globals (packetData (frame_at 42 1))). \<not> is_ip l"
    and c: "ip_before_transport (DecodeLayers arp_globals (packetData (frame_at 60 0)))"
    and c': "ip_before_transport (DecodeLayers arp_globals (packetData (frame_at 42 1)))"
    by (simp_all add: arp_globals_def)
  have z: "packets (entry (init_worker 0) zero_FiveTuple) = 0"
    by (simp add: entry_def init_worker_def zero_trackedFlow_def)
  from unclassified_frames_share_entry [OF h, of "init_worker 0" "frame_at 42 1"] c h' c' z
  have "flow_of arp_globals (frame_at 60 0) = zero_FiveTuple
   \<and> flow_of arp_globals (frame_at 42 1) = flow_of arp_globals (frame_at 60 0)
   \<and> packets (entry (track arp_globals (frame_at 60 0) (init_worker 0)) zero_FiveTuple) = 1"
    by simp
  with h c show ?thesis by (simp add: list_all_iff)
qed

text \<open>
  Claim C7: \<open>renamePcap\<close> returns the error of \<open>MkdirAll\<close> when the directories cannot be
  created, returns no error when the source file does not exist (the rename then fails
  with a not-exist error, which is ignored, and nothing is logged), returns every rename
  error that is not a not-exist error, and otherwise moves the file to the path
  \<open>Join outputPath datePart\<close>, where \<open>datePart\<close> is the time formatted as
  \<open>YYYY/MM/DD/YYYY-MM-DDTHH-MM-SS.pcap\<close>; both the source name and the date part get the
  suffix \<open>.gz\<close> exactly when \<open>writeCompressed\<close> is set. The directory created is the one of
  the new name. For an output path that is a single plain name the new name is the
  output path, a slash and the date part.
\<close>

theorem renamePcap_outcomes:
  assumes "oldName = tempName @ (if writeCompressed g then ''.gz'' else [])"
    and "newName = filepath_Join outputPath (Format_pcap now @ (if writeCompressed g then ''.gz'' else []))"
    and "r = renamePcap g now os tempName outputPath fs"
  shows "(MkdirAll_err os = Some e \<longrightarrow> rn_err r = Some e \<and> rn_fs r = fs)
   \<and> (MkdirAll_err os = None \<and> Rename_err os = None \<and> fs oldName = None \<longrightarrow>
        rn_err r = None \<and> rn_fs r = fs \<and> rn_log r = [])
   \<and> (MkdirAll_err os = None \<and> Rename_err os = Some e \<longrightarrow>
        rn_err r = (if IsNotExist e then None else Some e) \<and> rn_fs r = fs)
   \<and> (MkdirAll_err os = None \<and> Rename_err os = None \<and> fs oldName = Some content \<longrightarrow>
        rn_err r = None \<and> rn_fs r newName = Some content \<and> (newName \<noteq> oldName \<longrightarrow> rn_fs r oldName = None)
        \<and> (\<forall>p. p \<noteq> oldName \<and> p \<noteq> newName \<longrightarrow> rn_fs r p = fs p)
        \<and> rn_log r = [''moved '' @ oldName @ '' to '' @ newName])
   \<and> rn_calls r = MkdirAll (filepath_Dir newName) 511
        # (if MkdirAll_err os = None then [Rename oldName newName] else [])
   \<and> (outputPath \<noteq> [] \<and> CHR ''/'' \<notin> set outputPath \<and> outputPath \<noteq> ''.''
        \<and> outputPath \<noteq> ''..'' \<longrightarrow>
        newName = outputPath @ ''/'' @ Format_pcap now
                    @ (if writeCompressed g then ''.gz'' else []))"
proof (cases "writeCompressed g")
  case True
  have "CHR ''/'' \<notin> set ''.gz''" by simp
  note j = join_plain_root [OF _ _ _ _ this, of outputPath now]
  from True assms j show ?thesis
    by (simp add: renamePcap_def os_Rename_cases IsNotExist_def Let_def split: option.splits)
next
  case False
  have "CHR ''/'' \<notin> set []" by simp
  note j = join_plain_root [OF _ _ _ _ this, of outputPath now]
  from False assms j show ?thesis
    by (simp add: renamePcap_def os_Rename_cases IsNotExist_def Let_def split: option.splits)
qed

text \<open>
  A compressed capture moved to its dated name; a missing source; a rename and a
  \<open>MkdirAll\<close> that fail for lack of permission.
\<close>

theorem renamePcap_outcomes_witness:
  "rn_err (renamePcap (S1_globals\<lparr>writeCompressed := True\<rparr>) halloween os_ok
       ''eth0_current.pcap.tmp'' ''out''
       [''eth0_current.pcap.tmp.gz'' \<mapsto> [31, 139]]) = None
   \<and> rn_fs (renamePcap (S1_globals\<lparr>writeCompressed := True\<rparr>) halloween os_ok
       ''eth0_current.pcap.tmp'' ''out''
       [''eth0_current.pcap.tmp.gz'' \<mapsto> [31, 139]])
         ''out/2026/10/31/2026-10-31T03-04-05.pcap.gz'' = Some [31, 139]
   \<and> rn_fs (renamePcap (S1_globals\<lparr>writeCompressed := True\<rparr>) halloween os_ok
       ''eth0_current.pcap.tmp'' ''out''
       [''eth0_current.pcap.tmp.gz'' \<mapsto> [31, 139]]) ''eth0_current.pcap.tmp.gz'' = None
   \<and> rn_err (renamePcap S1_globals halloween os_ok ''eth0_current.pcap.tmp'' ''out'' Map.empty) = None
   \<and> rn_fs (renamePcap S1_globals halloween os_ok ''eth0_current.pcap.tmp'' ''out'' Map.empty)
        = Map.empty
   \<and> rn_err (renamePcap S1_globals halloween (os_ok\<lparr>Rename_err := Some ErrPermission\<rparr>)
        ''eth0_current.pcap.tmp'' ''out'' stale_fs) = Some ErrPermission
   \<and> rn_err (renamePcap S1_globals halloween (os_ok\<lparr>MkdirAll_err := Some ErrPermission\<rparr>)
        ''eth0_current.pcap.tmp'' ''out'' stale_fs) = Some ErrPermission"
proof -
  let ?gz = "S1_globals\<lparr>writeCompressed := True\<rparr>"
  have f: "Format_pcap halloween = ''2026/10/31/2026-10-31T03-04-05.pcap''"
    by (simp add: Format_pcap_def pad2_def pad4_def digit_def halloween_def)
  have jn: "filepath_Join ''out'' ''2026/10/31/2026-10-31T03-04-05.pcap.gz''
      = ''out/2026/10/31/2026-10-31T03-04-05.pcap.gz''"
    by (simp add: filepath_Join_def filepath_Clean_def clean_elem_def)
  have c: "writeCompressed ?gz" "\<not> writeCompressed S1_globals" by (simp_all add: S1_globals_def)
  note a = renamePcap_outcomes [OF refl refl refl, where g = ?gz
      and tempName = "''eth0_current.pcap.tmp''" and outputPath = "''out''" and now = halloween
      and os = os_ok and fs = "[''eth0_current.pcap.tmp.gz'' \<mapsto> [31, 139]]"
      and e = ErrPermission and content = "[31, 139]"]
  note b = renamePcap_outcomes [OF refl refl refl, where g = S1_globals
      and tempName = "''eth0_current.pcap.tmp''" and outputPath = "''out''" and now = halloween
      and os = os_ok and fs = Map.empty and e = ErrPermission and content = "[]"]
  note d = renamePcap_outcomes [OF refl refl refl, where g = S1_globals
      and tempName = "''eth0_current.pcap.tmp''" and outputPath = "''out''" and now = halloween
      and os = "os_ok\<lparr>Rename_err := Some ErrPermission\<rparr>" and fs = stale_fs
      and e = ErrPermission and content = "[]"]
  note e = renamePcap_outcomes [OF refl refl refl, where g = S1_globals
      and tempName = "''eth0_current.pcap.tmp''" and outputPath = "''out''" and now = halloween
      and os = "os_ok\<lparr>MkdirAll_err := Some ErrPermission\<rparr>" and fs = stale_fs
      and e = ErrPermission and content = "[]"]
  from a have 1: "rn_err (renamePcap ?gz halloween os_ok ''eth0_current.pcap.tmp'' ''out''
       [''eth0_current.pcap.tmp.gz'' \<mapsto> [31, 139]]) = None
   \<and> rn_fs (renamePcap ?gz halloween os_ok ''eth0_current.pcap.tmp'' ''out''
       [''eth0_current.pcap.tmp.gz'' \<mapsto> [31, 139]])
         ''out/2026/10/31/2026-10-31T03-04-05.pcap.gz'' = Some [31, 139]
   \<and> rn_fs (renamePcap ?gz halloween os_ok ''eth0_current.pcap.tmp'' ''out''
       [''eth0_current.pcap.tmp.gz'' \<mapsto> [31, 139]]) ''eth0_current.pcap.tmp.gz'' = None"
    by (simp add: c f jn os_ok_def)
  from b have 2: "rn_err (renamePcap S1_globals halloween os_ok ''eth0_current.pcap.tmp'' ''out'' Map.empty) = None
   \<and> rn_fs (renamePcap S1_globals halloween os_ok ''eth0_current.pcap.tmp'' ''out'' Map.empty) = Map.empty"
    by (simp add: c os_ok_def)
  from d have 3: "rn_err (renamePcap S1_globals halloween (os_ok\<lparr>Rename_err := Some ErrPermission\<rparr>)
        ''eth0_current.pcap.tmp'' ''out'' stale_fs) = Some ErrPermission"
    by (simp add: c os_ok_def IsNotExist_def)
  from e have 4: "rn_err (renamePcap S1_globals halloween (os_ok\<lparr>MkdirAll_err := Some ErrPermission\<rparr>)
        ''eth0_current.pcap.tmp'' ''out'' stale_fs) = Some ErrPermission"
    by (simp add: c os_ok_def)
  from 1 2 3 4 show ?thesis by simp
qed

end
